theory Spec2Isabelle
  imports Complex_Main "HOL-Library.Log_Nat"
begin

unbundle bit_operations_syntax

section \<open>JavaScript numbers and arrays\<close>

text \<open>
  The emulator is JavaScript. Register values, counters and addresses are JavaScript
  Numbers that only ever hold integers here, so they are modelled as \<^typ>\<open>int\<close>
  (exact below \<open>2 ^ 53\<close>; nothing in the code masks them unless the source line
  does). The bitwise operators convert their operands to 32-bit signed integers first;
  \<open>toInt32\<close> writes that conversion out. The accumulators of \<open>step\<close> and the
  mixer use fractions, which the code holds in doubles. A finite double is a
  \<^typ>\<open>real\<close> here; the accumulators are modelled with the rounding of every
  operation written out (\<open>to_double\<close> below), the mixer in exact arithmetic and a
  second time with the rounding written out.
\<close>

definition toInt32 :: "int \<Rightarrow> int" where
  "toInt32 x = signed_take_bit 31 x"

definition js_and :: "int \<Rightarrow> int \<Rightarrow> int" where
  "js_and a b = toInt32 a AND toInt32 b"

definition js_or :: "int \<Rightarrow> int \<Rightarrow> int" where
  "js_or a b = toInt32 a OR toInt32 b"

definition js_xor :: "int \<Rightarrow> int \<Rightarrow> int" where
  "js_xor a b = toInt32 a XOR toInt32 b"

definition js_shl :: "int \<Rightarrow> int \<Rightarrow> int" where
  "js_shl a n = toInt32 (push_bit (nat (n mod 32)) (toInt32 a))"

definition js_shr :: "int \<Rightarrow> int \<Rightarrow> int" where
  "js_shr a n = drop_bit (nat (n mod 32)) (toInt32 a)"

text \<open>
  A Number that need not be finite, as the argument of \<open>setVolume\<close>: a finite
  number, one of the two infinities, or NaN. \<open>js_less x y\<close> is \<open>x < y\<close>, which is
  false whenever an operand is NaN.
\<close>

datatype js_num = Num real | PosInf | NegInf | NaN

fun js_less :: "js_num \<Rightarrow> js_num \<Rightarrow> bool" where
  "js_less NaN y = False"
| "js_less x NaN = False"
| "js_less (Num a) (Num b) = (a < b)"
| "js_less x NegInf = False"
| "js_less PosInf y = False"
| "js_less NegInf y = True"
| "js_less (Num a) PosInf = True"

text \<open>
  The result of an arithmetic operation on doubles is the exact result rounded to the
  nearest double, a tie going to the double with the even significand, and a decimal
  literal is the double nearest to it. \<open>to_double x\<close> is that double: with
  \<open>2\<^sup>e \<le> |x| < 2\<^sup>e\<^sup>+\<^sup>1\<close> (\<open>expo x\<close> is this \<open>e\<close>) the doubles around \<open>x\<close>
  are the multiples of \<open>2\<^sup>e\<^sup>-\<^sup>5\<^sup>2\<close>, and below \<open>2\<^sup>-\<^sup>1\<^sup>0\<^sup>2\<^sup>2\<close> the multiples of
  \<open>2\<^sup>-\<^sup>1\<^sup>0\<^sup>7\<^sup>4\<close>. Where that is \<open>2\<^sup>1\<^sup>0\<^sup>2\<^sup>4\<close> or more the code has an infinity;
  adding 1 to a double or subtracting two doubles of one sign never gives one, and the
  products and quotients of \<open>step\<close> and \<open>_mix\<close> are far below it.
\<close>

definition expo :: "real \<Rightarrow> int" where
  "expo x = (if 1 \<le> \<bar>x\<bar> then bitlen \<lfloor>\<bar>x\<bar>\<rfloor> - 1 else - bitlen (\<lceil>1 / \<bar>x\<bar>\<rceil> - 1))"

definition round_even :: "real \<Rightarrow> int" where
  "round_even y = (let f = \<lfloor>y\<rfloor>; d = y - of_int f in
     if d < 1 / 2 then f else if 1 / 2 < d then f + 1 else if even f then f else f + 1)"

definition to_double :: "real \<Rightarrow> real" where
  "to_double x = (if x = 0 then 0 else
     (let u = 2 powi (max (expo x) (- 1022) - 52) in of_int (round_even (x / u)) * u))"

text \<open>
  Reading an array outside its bounds gives \<open>undefined\<close> (\<open>None\<close>). A store
  into a \<open>Uint8Array\<close> keeps the value modulo 256 and is dropped outside the bounds.
\<close>

definition js_index :: "'a list \<Rightarrow> int \<Rightarrow> 'a option" where
  "js_index xs i = (if 0 \<le> i \<and> i < int (length xs) then Some (xs ! nat i) else None)"

definition u8_store :: "int list \<Rightarrow> int \<Rightarrow> int \<Rightarrow> int list" where
  "u8_store xs i v =
     (if 0 \<le> i \<and> i < int (length xs) then xs[nat i := v mod 256] else xs)"

section \<open>PPU\<close>

text \<open>
  \<open>class PPU\<close> of ppu.js. \<open>scrollX\<close> is compared with \<open>null\<close> by
  \<open>writeRegister\<close>, so it is an option (\<open>None\<close> is \<open>null\<close>). The frame
  buffer and the canvas are written by \<open>renderFrame\<close> only and read by nothing
  else; \<open>ppu_frames\<close> counts the frames handed to the canvas in their place.
\<close>

record ppu =
  ppu_ctrl :: int
  ppu_mask :: int
  ppu_status :: int
  ppu_oamAddr :: int
  ppu_scrollX :: "int option"
  ppu_scrollY :: int
  ppu_addr :: int
  ppu_data :: int
  ppu_vram :: "int list"
  ppu_oam :: "int list"
  ppu_cycle :: int
  ppu_scanline :: int
  ppu_frames :: nat

definition ppu_init :: ppu where
  "ppu_init = \<lparr> ppu_ctrl = 0, ppu_mask = 0, ppu_status = 0, ppu_oamAddr = 0,
     ppu_scrollX = Some 0, ppu_scrollY = 0, ppu_addr = 0, ppu_data = 0,
     ppu_vram = replicate 16384 0, ppu_oam = replicate 256 0,
     ppu_cycle = 0, ppu_scanline = 0, ppu_frames = 0 \<rparr>"

text \<open>\<open>readRegister(addr)\<close>: the value returned (\<open>None\<close> is \<open>undefined\<close>) and the new state.\<close>

definition readRegister :: "int \<Rightarrow> ppu \<Rightarrow> int option \<times> ppu" where
  "readRegister a s =
     (if a = 0x2002 then (Some (ppu_status s), s\<lparr>ppu_status := js_and (ppu_status s) 0x7F\<rparr>)
      else if a = 0x2007 then
        (js_index (ppu_vram s) (ppu_addr s), s\<lparr>ppu_addr := ppu_addr s + 1\<rparr>)
      else (Some 0, s))"

definition writeRegister :: "int \<Rightarrow> int \<Rightarrow> ppu \<Rightarrow> ppu" where
  "writeRegister a v s =
     (if a = 0x2000 then s\<lparr>ppu_ctrl := v\<rparr>
      else if a = 0x2001 then s\<lparr>ppu_mask := v\<rparr>
      else if a = 0x2003 then s\<lparr>ppu_oamAddr := v\<rparr>
      else if a = 0x2004 then
        s\<lparr>ppu_oam := u8_store (ppu_oam s) (ppu_oamAddr s) v, ppu_oamAddr := ppu_oamAddr s + 1\<rparr>
      else if a = 0x2005 then
        (if ppu_scrollX s = None then s\<lparr>ppu_scrollX := Some v\<rparr>
         else s\<lparr>ppu_scrollY := v, ppu_scrollX := None\<rparr>)
      else if a = 0x2006 then s\<lparr>ppu_addr := js_or (js_shl (ppu_addr s) 8) v\<rparr>
      else if a = 0x2007 then
        s\<lparr>ppu_vram := u8_store (ppu_vram s) (ppu_addr s) v, ppu_addr := ppu_addr s + 1\<rparr>
      else s)"

definition renderFrame :: "ppu \<Rightarrow> ppu" where
  "renderFrame s = s\<lparr>ppu_frames := ppu_frames s + 1\<rparr>"

definition ppu_step :: "ppu \<Rightarrow> ppu" where
  "ppu_step s =
     (let s1 = s\<lparr>ppu_cycle := ppu_cycle s + 1\<rparr> in
      if ppu_cycle s1 > 340 then
        (let s2 = s1\<lparr>ppu_cycle := 0, ppu_scanline := ppu_scanline s1 + 1\<rparr>;
             s3 = (if ppu_scanline s2 = 241
                   then renderFrame (s2\<lparr>ppu_status := js_or (ppu_status s2) 0x80\<rparr>)
                   else s2)
         in if ppu_scanline s3 \<ge> 262
            then s3\<lparr>ppu_scanline := 0, ppu_status := js_and (ppu_status s3) 0x7F\<rparr>
            else s3)
      else s1)"

text \<open>\<open>n\<close> calls of \<open>step()\<close> in a row.\<close>

primrec ppu_steps :: "nat \<Rightarrow> ppu \<Rightarrow> ppu" where
  "ppu_steps 0 s = s"
| "ppu_steps (Suc n) s = ppu_steps n (ppu_step s)"

text \<open>Bit 7 of the status register, as a caller tests it: \<open>status & 0x80\<close>.\<close>

definition vblank :: "ppu \<Rightarrow> bool" where
  "vblank s \<longleftrightarrow> js_and (ppu_status s) 0x80 \<noteq> 0"

section \<open>APU: shared units\<close>

text \<open>
  apu.js, the version with the frame counter, DMC DMA and IRQs. Each class is a record
  and each method a function from the old state to the new one.
\<close>

definition NTSC_CPU_HZ :: real where
  "NTSC_CPU_HZ = 1789773"

definition DMC_RATES :: "int list" where
  "DMC_RATES = [428, 380, 340, 320, 286, 254, 226, 214,
                190, 160, 142, 128, 106, 85, 72, 54]"

definition NOISE_PERIODS :: "int list" where
  "NOISE_PERIODS = [4, 8, 16, 32, 64, 96, 128, 160,
                    202, 254, 380, 508, 762, 1016, 2034, 4068]"

definition LENGTH_TABLE :: "int list" where
  "LENGTH_TABLE = [10, 254, 20, 2, 40, 4, 80, 6,
                   160, 8, 60, 10, 14, 12, 26, 14,
                   12, 16, 24, 18, 48, 20, 96, 22,
                   192, 24, 72, 26, 16, 28, 32, 30]"

text \<open>
  \<open>clamp01\<close>: both comparisons are false for NaN, which is returned as it is.
\<close>

definition clamp01 :: "js_num \<Rightarrow> js_num" where
  "clamp01 x = (if js_less x (Num 0) then Num 0 else if js_less (Num 1) x then Num 1 else x)"

text \<open>\<open>x || d\<close> on a table entry: \<open>undefined\<close> and 0 are falsy.\<close>

definition js_or_else :: "int option \<Rightarrow> int \<Rightarrow> int" where
  "js_or_else x d = (case x of None \<Rightarrow> d | Some v \<Rightarrow> if v = 0 then d else v)"

record envelope =
  env_loop :: bool
  env_constantVolume :: bool
  env_volume :: int
  env_start :: bool
  env_decay :: int
  env_divider :: int

definition envelope_init :: envelope where
  "envelope_init = \<lparr> env_loop = False, env_constantVolume = False, env_volume = 0,
     env_start = False, env_decay = 0, env_divider = 0 \<rparr>"

definition envelope_write :: "int \<Rightarrow> envelope \<Rightarrow> envelope" where
  "envelope_write n e = e\<lparr> env_loop := js_and n 0x20 \<noteq> 0,
     env_constantVolume := js_and n 0x10 \<noteq> 0, env_volume := js_and n 0x0F \<rparr>"

definition envelope_restart :: "envelope \<Rightarrow> envelope" where
  "envelope_restart e = e\<lparr>env_start := True\<rparr>"

definition envelope_quarter :: "envelope \<Rightarrow> envelope" where
  "envelope_quarter e =
     (if env_start e
      then e\<lparr>env_start := False, env_decay := 15, env_divider := env_volume e\<rparr>
      else if env_divider e = 0 then
        (let e1 = e\<lparr>env_divider := env_volume e\<rparr> in
         if env_decay e1 > 0 then e1\<lparr>env_decay := env_decay e1 - 1\<rparr>
         else if env_loop e1 then e1\<lparr>env_decay := 15\<rparr>
         else e1)
      else e\<lparr>env_divider := env_divider e - 1\<rparr>)"

definition envelope_out :: "envelope \<Rightarrow> int" where
  "envelope_out e = (if env_constantVolume e then env_volume e else env_decay e)"

record lengthCounter =
  len_value :: int
  len_halt :: bool

definition length_init :: lengthCounter where
  "length_init = \<lparr> len_value = 0, len_halt = False \<rparr>"

definition length_load :: "int \<Rightarrow> lengthCounter \<Rightarrow> lengthCounter" where
  "length_load index l =
     l\<lparr>len_value := js_or_else (js_index LENGTH_TABLE (js_and index 0x1F)) 0\<rparr>"

definition length_half :: "lengthCounter \<Rightarrow> lengthCounter" where
  "length_half l =
     (if \<not> len_halt l \<and> len_value l > 0 then l\<lparr>len_value := len_value l - 1\<rparr> else l)"

definition length_zero :: "lengthCounter \<Rightarrow> bool" where
  "length_zero l \<longleftrightarrow> len_value l = 0"

text \<open>\<open>n\<close> half-frame ticks of a length counter in a row.\<close>

primrec length_halves :: "nat \<Rightarrow> lengthCounter \<Rightarrow> lengthCounter" where
  "length_halves 0 l = l"
| "length_halves (Suc n) l = length_halves n (length_half l)"

section \<open>APU: pulse channels and their sweep units\<close>

text \<open>
  A \<open>Sweep\<close> holds a reference to the \<open>Pulse\<close> that owns it and writes that
  pulse's timer. The sweep is a field of the pulse record here, and the sweep's methods
  that touch the timer take and return the pulse.
\<close>

record sweep =
  sw_isPulse1 :: bool
  sw_enabled :: bool
  sw_period :: int
  sw_negate :: bool
  sw_shift :: int
  sw_counter :: int
  sw_reload :: bool

record pulse =
  p_enabled :: bool
  p_env :: envelope
  p_len :: lengthCounter
  p_sweep :: sweep
  p_duty :: int
  p_dutyStep :: int
  p_timer :: int
  p_timerCnt :: int

definition sweep_init :: "bool \<Rightarrow> sweep" where
  "sweep_init isPulse1 = \<lparr> sw_isPulse1 = isPulse1, sw_enabled = False, sw_period = 0,
     sw_negate = False, sw_shift = 0, sw_counter = 0, sw_reload = False \<rparr>"

definition sweep_write :: "int \<Rightarrow> sweep \<Rightarrow> sweep" where
  "sweep_write n w = w\<lparr> sw_enabled := js_and n 0x80 \<noteq> 0,
     sw_period := js_and (js_shr n 4) 0x07, sw_negate := js_and n 0x08 \<noteq> 0,
     sw_shift := js_and n 0x07, sw_reload := True \<rparr>"

definition sweep_target :: "pulse \<Rightarrow> int" where
  "sweep_target p =
     (let w = p_sweep p; t = p_timer p; change = js_shr t (sw_shift w) in
      if sw_shift w = 0 then t
      else (let t1 = (if sw_negate w then t - change else t + change) in
            if sw_negate w \<and> sw_isPulse1 w then t1 - 1 else t1))"

definition sweep_half :: "pulse \<Rightarrow> pulse" where
  "sweep_half p =
     (let w = p_sweep p;
          p1 = (if sw_counter w = 0 then
                  (let p0 = (if sw_enabled w \<and> sw_shift w \<noteq> 0 then
                               (let t = sweep_target p in
                                if t < 0x800 \<and> p_timer p \<ge> 8 then p\<lparr>p_timer := t\<rparr> else p)
                             else p)
                   in p0\<lparr>p_sweep := w\<lparr>sw_counter := sw_period w\<rparr>\<rparr>)
                else p\<lparr>p_sweep := w\<lparr>sw_counter := sw_counter w - 1\<rparr>\<rparr>);
          w1 = p_sweep p1
      in if sw_reload w1
         then p1\<lparr>p_sweep := w1\<lparr>sw_counter := sw_period w1, sw_reload := False\<rparr>\<rparr>
         else p1)"

definition pulse_init :: "bool \<Rightarrow> pulse" where
  "pulse_init isPulse1 = \<lparr> p_enabled = False, p_env = envelope_init, p_len = length_init,
     p_sweep = sweep_init isPulse1, p_duty = 0, p_dutyStep = 0, p_timer = 0,
     p_timerCnt = 0 \<rparr>"

definition pulse_write0 :: "int \<Rightarrow> pulse \<Rightarrow> pulse" where
  "pulse_write0 n p =
     (let e = envelope_write n (p_env p) in
      p\<lparr> p_env := e, p_len := (p_len p)\<lparr>len_halt := env_loop e\<rparr>,
         p_duty := js_and (js_shr n 6) 3 \<rparr>)"

definition pulse_write1 :: "int \<Rightarrow> pulse \<Rightarrow> pulse" where
  "pulse_write1 n p = p\<lparr>p_sweep := sweep_write n (p_sweep p)\<rparr>"

definition pulse_write2 :: "int \<Rightarrow> pulse \<Rightarrow> pulse" where
  "pulse_write2 n p = p\<lparr>p_timer := js_or (js_and (p_timer p) 0x700) n\<rparr>"

definition pulse_write3 :: "int \<Rightarrow> pulse \<Rightarrow> pulse" where
  "pulse_write3 n p =
     (let p1 = p\<lparr>p_timer := js_or (js_and (p_timer p) 0x0FF) (js_shl (js_and n 7) 8)\<rparr>;
          p2 = (if p_enabled p1
                then p1\<lparr>p_len := length_load (js_and (js_shr n 3) 0x1F) (p_len p1)\<rparr>
                else p1)
      in p2\<lparr>p_env := envelope_restart (p_env p2), p_dutyStep := 0\<rparr>)"

definition pulse_setEnabled :: "bool \<Rightarrow> pulse \<Rightarrow> pulse" where
  "pulse_setEnabled on p =
     (let p1 = p\<lparr>p_enabled := on\<rparr> in
      if \<not> p_enabled p1 then p1\<lparr>p_len := (p_len p1)\<lparr>len_value := 0\<rparr>\<rparr> else p1)"

definition pulse_quarter :: "pulse \<Rightarrow> pulse" where
  "pulse_quarter p = p\<lparr>p_env := envelope_quarter (p_env p)\<rparr>"

definition pulse_half :: "pulse \<Rightarrow> pulse" where
  "pulse_half p = sweep_half (p\<lparr>p_len := length_half (p_len p)\<rparr>)"

definition pulse_clock :: "pulse \<Rightarrow> pulse" where
  "pulse_clock p =
     (if p_timerCnt p = 0
      then p\<lparr>p_timerCnt := p_timer p, p_dutyStep := js_and (p_dutyStep p + 1) 7\<rparr>
      else p\<lparr>p_timerCnt := p_timerCnt p - 1\<rparr>)"

definition DUTY :: "int list list" where
  "DUTY = [[0,0,0,0,0,0,0,1],
           [0,0,0,0,0,0,1,1],
           [0,0,0,0,1,1,1,1],
           [1,1,1,1,1,1,0,0]]"

text \<open>
  \<open>Pulse.out()\<close>. \<open>DUTY[this.duty]\<close> outside the table is \<open>undefined\<close>, and
  indexing \<open>undefined\<close> throws; an entry missing from a row is \<open>undefined\<close>, which
  is falsy.
\<close>

datatype js_error = TypeError

definition pulse_out :: "pulse \<Rightarrow> js_error + int" where
  "pulse_out p =
     (if \<not> p_enabled p \<or> length_zero (p_len p) \<or> p_timer p < 8 then Inr 0
      else (case js_index DUTY (p_duty p) of
              None \<Rightarrow> Inl TypeError
            | Some row \<Rightarrow>
                (case js_index row (p_dutyStep p) of
                   None \<Rightarrow> Inr 0
                 | Some gate \<Rightarrow> Inr (if gate \<noteq> 0 then envelope_out (p_env p) else 0))))"

section \<open>APU: triangle and noise channels\<close>

record triangle =
  t_enabled :: bool
  t_len :: lengthCounter
  t_control :: bool
  t_linearReload :: int
  t_linear :: int
  t_reloadFlag :: bool
  t_timer :: int
  t_timerCnt :: int
  t_step :: int

definition triangle_init :: triangle where
  "triangle_init = \<lparr> t_enabled = False, t_len = length_init, t_control = False,
     t_linearReload = 0, t_linear = 0, t_reloadFlag = False, t_timer = 0, t_timerCnt = 0,
     t_step = 0 \<rparr>"

definition triangle_write0 :: "int \<Rightarrow> triangle \<Rightarrow> triangle" where
  "triangle_write0 n t =
     (let c = (js_and n 0x80 \<noteq> 0) in
      t\<lparr> t_control := c, t_len := (t_len t)\<lparr>len_halt := c\<rparr>,
         t_linearReload := js_and n 0x7F \<rparr>)"

definition triangle_write2 :: "int \<Rightarrow> triangle \<Rightarrow> triangle" where
  "triangle_write2 n t = t\<lparr>t_timer := js_or (js_and (t_timer t) 0x700) n\<rparr>"

definition triangle_write3 :: "int \<Rightarrow> triangle \<Rightarrow> triangle" where
  "triangle_write3 n t =
     (let t1 = t\<lparr>t_timer := js_or (js_and (t_timer t) 0x0FF) (js_shl (js_and n 7) 8)\<rparr>;
          t2 = (if t_enabled t1
                then t1\<lparr>t_len := length_load (js_and (js_shr n 3) 0x1F) (t_len t1)\<rparr>
                else t1)
      in t2\<lparr>t_reloadFlag := True\<rparr>)"

definition triangle_setEnabled :: "bool \<Rightarrow> triangle \<Rightarrow> triangle" where
  "triangle_setEnabled on t =
     (let t1 = t\<lparr>t_enabled := on\<rparr> in
      if \<not> t_enabled t1 then t1\<lparr>t_len := (t_len t1)\<lparr>len_value := 0\<rparr>\<rparr> else t1)"

definition triangle_quarter :: "triangle \<Rightarrow> triangle" where
  "triangle_quarter t =
     (let t1 = (if t_reloadFlag t then t\<lparr>t_linear := t_linearReload t\<rparr>
                else if t_linear t > 0 then t\<lparr>t_linear := t_linear t - 1\<rparr>
                else t)
      in if \<not> t_control t1 then t1\<lparr>t_reloadFlag := False\<rparr> else t1)"

definition triangle_half :: "triangle \<Rightarrow> triangle" where
  "triangle_half t = t\<lparr>t_len := length_half (t_len t)\<rparr>"

definition triangle_clock :: "triangle \<Rightarrow> triangle" where
  "triangle_clock t =
     (if t_timerCnt t = 0 then
        (let t1 = t\<lparr>t_timerCnt := t_timer t\<rparr> in
         if \<not> length_zero (t_len t1) \<and> t_linear t1 > 0
         then t1\<lparr>t_step := js_and (t_step t1 + 1) 31\<rparr>
         else t1)
      else t\<lparr>t_timerCnt := t_timerCnt t - 1\<rparr>)"

definition TRI :: "int list" where
  "TRI = [15, 14, 13, 12, 11, 10, 9, 8, 7, 6, 5, 4, 3, 2, 1, 0,
          0, 1, 2, 3, 4, 5, 6, 7, 8, 9, 10, 11, 12, 13, 14, 15]"

text \<open>\<open>Triangle.out()\<close>; \<open>None\<close> is \<open>undefined\<close>, a step outside the table.\<close>

definition triangle_out :: "triangle \<Rightarrow> int option" where
  "triangle_out t =
     (if \<not> t_enabled t \<or> length_zero (t_len t) \<or> t_linear t = 0 \<or> t_timer t < 2
      then Some 0
      else js_index TRI (t_step t))"

record noise =
  n_enabled :: bool
  n_env :: envelope
  n_len :: lengthCounter
  n_mode :: int
  n_periodIdx :: int
  n_timerCnt :: int
  n_lfsr :: int

definition noise_init :: noise where
  "noise_init = \<lparr> n_enabled = False, n_env = envelope_init, n_len = length_init,
     n_mode = 0, n_periodIdx = 0, n_timerCnt = 0, n_lfsr = 1 \<rparr>"

definition noise_write0 :: "int \<Rightarrow> noise \<Rightarrow> noise" where
  "noise_write0 n x =
     (let e = envelope_write n (n_env x) in
      x\<lparr>n_env := e, n_len := (n_len x)\<lparr>len_halt := env_loop e\<rparr>\<rparr>)"

definition noise_write2 :: "int \<Rightarrow> noise \<Rightarrow> noise" where
  "noise_write2 n x =
     x\<lparr>n_mode := (if js_and n 0x80 \<noteq> 0 then 1 else 0), n_periodIdx := js_and n 0x0F\<rparr>"

definition noise_write3 :: "int \<Rightarrow> noise \<Rightarrow> noise" where
  "noise_write3 n x =
     (let x1 = (if n_enabled x
                then x\<lparr>n_len := length_load (js_and (js_shr n 3) 0x1F) (n_len x)\<rparr>
                else x)
      in x1\<lparr>n_env := envelope_restart (n_env x1)\<rparr>)"

definition noise_setEnabled :: "bool \<Rightarrow> noise \<Rightarrow> noise" where
  "noise_setEnabled on x =
     (let x1 = x\<lparr>n_enabled := on\<rparr> in
      if \<not> n_enabled x1 then x1\<lparr>n_len := (n_len x1)\<lparr>len_value := 0\<rparr>\<rparr> else x1)"

definition noise_quarter :: "noise \<Rightarrow> noise" where
  "noise_quarter x = x\<lparr>n_env := envelope_quarter (n_env x)\<rparr>"

definition noise_half :: "noise \<Rightarrow> noise" where
  "noise_half x = x\<lparr>n_len := length_half (n_len x)\<rparr>"

definition noise_clock :: "noise \<Rightarrow> noise" where
  "noise_clock x =
     (if n_timerCnt x = 0 then
        (let bit0 = js_and (n_lfsr x) 1;
             tap = (if n_mode x \<noteq> 0 then js_and (js_shr (n_lfsr x) 6) 1
                    else js_and (js_shr (n_lfsr x) 1) 1);
             fb = js_xor bit0 tap
         in x\<lparr> n_timerCnt := js_or_else (js_index NOISE_PERIODS (n_periodIdx x)) 4,
               n_lfsr := js_or (js_shr (n_lfsr x) 1) (js_shl fb 14) \<rparr>)
      else x\<lparr>n_timerCnt := n_timerCnt x - 1\<rparr>)"

definition noise_out :: "noise \<Rightarrow> int" where
  "noise_out x =
     (if \<not> n_enabled x \<or> length_zero (n_len x) \<or> js_and (n_lfsr x) 1 \<noteq> 0 then 0
      else envelope_out (n_env x))"

text \<open>
  Everything a caller can do to a \<open>Noise\<close> object, for statements about every
  sequence of calls.
\<close>

datatype noise_op =
  NClock | NWrite0 int | NWrite2 int | NWrite3 int | NSetEnabled bool | NQuarter | NHalf

fun noise_do :: "noise_op \<Rightarrow> noise \<Rightarrow> noise" where
  "noise_do NClock x = noise_clock x"
| "noise_do (NWrite0 n) x = noise_write0 n x"
| "noise_do (NWrite2 n) x = noise_write2 n x"
| "noise_do (NWrite3 n) x = noise_write3 n x"
| "noise_do (NSetEnabled on) x = noise_setEnabled on x"
| "noise_do NQuarter x = noise_quarter x"
| "noise_do NHalf x = noise_half x"

fun noise_run :: "noise_op list \<Rightarrow> noise \<Rightarrow> noise" where
  "noise_run [] x = x"
| "noise_run (a # as) x = noise_run as (noise_do a x)"

section \<open>APU: delta modulation channel\<close>

text \<open>
  \<open>cpuRead\<close> and \<open>cpuStall\<close> are the processor's side of the DMA: \<open>d_cpuRead\<close>
  is the function the constructor stores, \<open>d_reads\<close> lists the addresses it was called
  with, oldest first, and \<open>d_stalled\<close> adds up the cycles asked of \<open>cpuStall\<close>.
\<close>

record dmc =
  d_enabled :: bool
  d_irqEnable :: bool
  d_loop :: bool
  d_rateIdx :: int
  d_timer :: int
  d_timerCnt :: int
  d_sampleAddr0 :: int
  d_sampleLen0 :: int
  d_currentAddr :: int
  d_bytesRemaining :: int
  d_sampleBufferEmpty :: bool
  d_sampleBuffer :: int
  d_shiftReg :: int
  d_bitsRemaining :: int
  d_dac :: int
  d_irq :: bool
  d_cpuRead :: "int \<Rightarrow> int"
  d_reads :: "int list"
  d_stalled :: int

definition dmc_init :: "(int \<Rightarrow> int) \<Rightarrow> dmc" where
  "dmc_init cpuRead = \<lparr> d_enabled = False, d_irqEnable = False, d_loop = False,
     d_rateIdx = 0, d_timer = 428, d_timerCnt = 0, d_sampleAddr0 = 0xC000,
     d_sampleLen0 = 1, d_currentAddr = 0, d_bytesRemaining = 0,
     d_sampleBufferEmpty = True, d_sampleBuffer = 0, d_shiftReg = 0, d_bitsRemaining = 0,
     d_dac = 0, d_irq = False, d_cpuRead = cpuRead, d_reads = [], d_stalled = 0 \<rparr>"

definition dmc_write0 :: "int \<Rightarrow> dmc \<Rightarrow> dmc" where
  "dmc_write0 n d =
     (let d1 = d\<lparr>d_irqEnable := js_and n 0x80 \<noteq> 0\<rparr>;
          d2 = (if \<not> d_irqEnable d1 then d1\<lparr>d_irq := False\<rparr> else d1);
          d3 = d2\<lparr>d_loop := js_and n 0x40 \<noteq> 0, d_rateIdx := js_and n 0x0F\<rparr>
      in d3\<lparr>d_timer := js_or_else (js_index DMC_RATES (d_rateIdx d3)) 428\<rparr>)"

definition dmc_write1 :: "int \<Rightarrow> dmc \<Rightarrow> dmc" where
  "dmc_write1 n d = d\<lparr>d_dac := js_and n 0x7F\<rparr>"

definition dmc_write2 :: "int \<Rightarrow> dmc \<Rightarrow> dmc" where
  "dmc_write2 n d = d\<lparr>d_sampleAddr0 := 0xC000 + js_shl (js_and n 0xFF) 6\<rparr>"

definition dmc_write3 :: "int \<Rightarrow> dmc \<Rightarrow> dmc" where
  "dmc_write3 n d = d\<lparr>d_sampleLen0 := js_shl (js_and n 0xFF) 4 + 1\<rparr>"

definition dmc_setEnabled :: "bool \<Rightarrow> dmc \<Rightarrow> dmc" where
  "dmc_setEnabled on d =
     (let was = d_enabled d; d1 = d\<lparr>d_enabled := on\<rparr> in
      if d_enabled d1 \<and> \<not> was then
        (if d_bytesRemaining d1 = 0
         then d1\<lparr>d_currentAddr := d_sampleAddr0 d1, d_bytesRemaining := d_sampleLen0 d1\<rparr>
         else d1)
      else if \<not> d_enabled d1 then d1\<lparr>d_bytesRemaining := 0, d_irq := False\<rparr>
      else d1)"

definition dmc_refillBufferIfNeeded :: "dmc \<Rightarrow> dmc" where
  "dmc_refillBufferIfNeeded d =
     (if \<not> d_sampleBufferEmpty d \<or> d_bytesRemaining d = 0 then d
      else
        (let a = js_and (d_currentAddr d) 0xFFFF;
             data = js_and (d_cpuRead d a) 0xFF;
             d1 = d\<lparr> d_reads := d_reads d @ [a], d_stalled := d_stalled d + 4,
                    d_sampleBuffer := data, d_sampleBufferEmpty := False,
                    d_currentAddr := js_and (d_currentAddr d + 1) 0xFFFF,
                    d_bytesRemaining := d_bytesRemaining d - 1 \<rparr>
         in if d_bytesRemaining d1 = 0 \<and> d_loop d1
            then d1\<lparr>d_currentAddr := d_sampleAddr0 d1, d_bytesRemaining := d_sampleLen0 d1\<rparr>
            else if d_bytesRemaining d1 = 0 \<and> d_irqEnable d1 then d1\<lparr>d_irq := True\<rparr>
            else d1))"

definition dmc_clock :: "dmc \<Rightarrow> dmc" where
  "dmc_clock d =
     (let d1 = dmc_refillBufferIfNeeded d in
      if d_timerCnt d1 = 0 then
        (let d2 = d1\<lparr>d_timerCnt := d_timer d1\<rparr> in
         if d_bitsRemaining d2 = 0 then
           (if \<not> d_sampleBufferEmpty d2
            then dmc_refillBufferIfNeeded
                   (d2\<lparr> d_shiftReg := d_sampleBuffer d2, d_sampleBufferEmpty := True,
                        d_bitsRemaining := 8 \<rparr>)
            else d2)
         else
           (let d3 = (if js_and (d_shiftReg d2) 1 \<noteq> 0
                      then (if d_dac d2 \<le> 125 then d2\<lparr>d_dac := d_dac d2 + 2\<rparr> else d2)
                      else (if d_dac d2 \<ge> 2 then d2\<lparr>d_dac := d_dac d2 - 2\<rparr> else d2))
            in d3\<lparr> d_shiftReg := js_shr (d_shiftReg d3) 1,
                   d_bitsRemaining := d_bitsRemaining d3 - 1 \<rparr>))
      else d1\<lparr>d_timerCnt := d_timerCnt d1 - 1\<rparr>)"

definition dmc_out :: "dmc \<Rightarrow> int" where
  "dmc_out d = d_dac d"

definition dmc_statusActiveBit :: "dmc \<Rightarrow> int" where
  "dmc_statusActiveBit d = (if d_bytesRemaining d > 0 then 1 else 0)"

text \<open>\<open>n\<close> calls of \<open>DMC.clock()\<close> in a row, as \<open>APU.step\<close> makes one per cycle.\<close>

primrec dmc_clocks :: "nat \<Rightarrow> dmc \<Rightarrow> dmc" where
  "dmc_clocks 0 d = d"
| "dmc_clocks (Suc n) d = dmc_clocks n (dmc_clock d)"

section \<open>APU core: registers, frame sequencer, mixer\<close>

text \<open>
  \<open>class APU\<close>. \<open>_phase\<close> does not exist until the first \<open>step\<close>, so it is an
  option (\<open>None\<close> is \<open>undefined\<close>). The WebAudio sink is outside the model. Five
  fields are not in the source and are read by nothing in the model; they record what
  the object does: \<open>a_irqLine\<close> lists the arguments of the \<open>onIRQ\<close> calls (made
  when a callback is installed), \<open>a_samples\<close> the samples \<open>_mix\<close> produced for the
  sinks, \<open>a_quarters\<close> and \<open>a_halves\<close> count the quarter-frame and half-frame ticks
  given to the channels, and \<open>a_wraps\<close> counts the restarts of the sequence in
  \<open>step\<close>. The sample rate given to the constructor is taken to be a positive number
  (and not so small that \<open>1789773 / sampleRate\<close> is beyond the doubles).
\<close>

record apu =
  a_pulse1 :: pulse
  a_pulse2 :: pulse
  a_triangle :: triangle
  a_noise :: noise
  a_dmc :: dmc
  a_frameIRQ :: bool
  a_mode5 :: bool
  a_irqInhibit :: bool
  a_seqTime :: real
  a_phase :: "int option"
  a_master :: js_num
  a_samplePeriod :: real
  a_sampleTimer :: real
  a_irqLine :: "bool list"
  a_samples :: "real option list"
  a_quarters :: nat
  a_halves :: nat
  a_wraps :: nat

definition qPeriod :: real where
  "qPeriod = to_double (NTSC_CPU_HZ / 240)"

definition apu_init :: "(int \<Rightarrow> int) \<Rightarrow> real \<Rightarrow> apu" where
  "apu_init cpuRead sampleRate = \<lparr> a_pulse1 = pulse_init True, a_pulse2 = pulse_init False,
     a_triangle = triangle_init, a_noise = noise_init, a_dmc = dmc_init cpuRead,
     a_frameIRQ = False, a_mode5 = False, a_irqInhibit = True, a_seqTime = 0,
     a_phase = None, a_master = Num (to_double 0.3),
     a_samplePeriod = to_double (NTSC_CPU_HZ / sampleRate),
     a_sampleTimer = 0, a_irqLine = [], a_samples = [], a_quarters = 0, a_halves = 0,
     a_wraps = 0 \<rparr>"

definition apu_updateIRQLine :: "apu \<Rightarrow> apu" where
  "apu_updateIRQLine s = s\<lparr>a_irqLine := a_irqLine s @ [d_irq (a_dmc s) \<or> a_frameIRQ s]\<rparr>"

definition apu_cpuIRQ :: "apu \<Rightarrow> bool" where
  "apu_cpuIRQ s \<longleftrightarrow> d_irq (a_dmc s) \<or> a_frameIRQ s"

definition apu_clockQuarter :: "apu \<Rightarrow> apu" where
  "apu_clockQuarter s =
     s\<lparr> a_pulse1 := pulse_quarter (a_pulse1 s), a_pulse2 := pulse_quarter (a_pulse2 s),
        a_triangle := triangle_quarter (a_triangle s), a_noise := noise_quarter (a_noise s),
        a_quarters := a_quarters s + 1 \<rparr>"

definition apu_clockQuarterHalf :: "apu \<Rightarrow> apu" where
  "apu_clockQuarterHalf s =
     (let s1 = apu_clockQuarter s in
      s1\<lparr> a_pulse1 := pulse_half (a_pulse1 s1), a_pulse2 := pulse_half (a_pulse2 s1),
         a_triangle := triangle_half (a_triangle s1), a_noise := noise_half (a_noise s1),
         a_halves := a_halves s1 + 1 \<rparr>)"

text \<open>
  The arithmetic of \<open>_mix\<close> on the five channel outputs. An \<open>undefined\<close> triangle
  output makes \<open>tnd\<close> NaN, which is falsy, so \<open>tndTerm\<close> stays 0. Two divisions can
  meet a zero: \<open>8128 / (p1 + p2)\<close> is then an infinity and \<open>pulseTerm\<close> is 0, and
  \<open>159.79 / (1 / tnd + 100)\<close> is then an infinity and the sample is no finite
  number (\<open>None\<close>: an infinity or NaN). A product with a \<open>master\<close> that is NaN is
  NaN, and with one that is an infinity it is an infinity or NaN; the sample is
  \<open>None\<close> then too.
\<close>

definition mix_sample :: "int \<Rightarrow> int \<Rightarrow> int option \<Rightarrow> int \<Rightarrow> int \<Rightarrow> js_num \<Rightarrow> real option" where
  "mix_sample p1 p2 tri noi dmc master =
     (let pulseTerm =
            (if p1 \<noteq> 0 \<or> p2 \<noteq> 0
             then (if p1 + p2 = 0 then 0
                   else 95.88 / ((8128 / real_of_int (p1 + p2)) + 100))
             else 0);
          tndTerm =
            (case tri of
               None \<Rightarrow> Some 0
             | Some tr \<Rightarrow>
                 (let tnd = (real_of_int tr / 8227) + (real_of_int noi / 12241)
                            + (real_of_int dmc / 22638)
                  in if tnd \<noteq> 0
                     then (if (1 / tnd) + 100 = 0 then None
                           else Some (159.79 / ((1 / tnd) + 100)))
                     else Some 0))
      in case tndTerm of
           None \<Rightarrow> None
         | Some td \<Rightarrow>
             (case master of
                Num m \<Rightarrow> (let mixed = (pulseTerm + td) * m in Some (mixed * 2 - 1))
              | _ \<Rightarrow> None))"

definition apu_mix :: "apu \<Rightarrow> js_error + real option" where
  "apu_mix s =
     (case pulse_out (a_pulse1 s) of
        Inl e \<Rightarrow> Inl e
      | Inr p1 \<Rightarrow>
          (case pulse_out (a_pulse2 s) of
             Inl e \<Rightarrow> Inl e
           | Inr p2 \<Rightarrow>
               Inr (mix_sample p1 p2 (triangle_out (a_triangle s)) (noise_out (a_noise s))
                      (dmc_out (a_dmc s)) (a_master s))))"

text \<open>
  The arithmetic above is exact. The code computes in IEEE doubles: each operation
  gives the exact result rounded to the nearest double, and a decimal literal is the
  double nearest to it. \<open>mix_sample_rounded\<close> is \<open>_mix\<close> with that rounding
  written out as a function \<open>rnd\<close> around every operation and literal that can
  round. \<open>rounding rnd\<close> says the two things about \<open>rnd\<close> that the proofs use and
  that rounding to nearest has: it is monotone, and it leaves alone every multiple of
  \<open>2\<^sup>-\<^sup>3\<^sup>0\<close> with a numerator of at most 53 bits (such a number is a double).
  \<open>rounding_to_double\<close> proves both of \<open>to_double\<close>, and with \<open>to_double\<close> for
  \<open>rnd\<close> the function is \<open>_mix\<close> as the code computes it.
\<close>

definition rounding :: "(real \<Rightarrow> real) \<Rightarrow> bool" where
  "rounding rnd \<longleftrightarrow> (\<forall>x y. x \<le> y \<longrightarrow> rnd x \<le> rnd y) \<and>
     (\<forall>k. \<bar>k\<bar> \<le> 2 ^ 53 \<longrightarrow> rnd (real_of_int k / 2 ^ 30) = real_of_int k / 2 ^ 30)"

definition mix_sample_rounded ::
  "(real \<Rightarrow> real) \<Rightarrow> int \<Rightarrow> int \<Rightarrow> int option \<Rightarrow> int \<Rightarrow> int \<Rightarrow> js_num \<Rightarrow> real option" where
  "mix_sample_rounded rnd p1 p2 tri noi dmc master =
     (let pulseTerm =
            (if p1 \<noteq> 0 \<or> p2 \<noteq> 0
             then (if p1 + p2 = 0 then 0
                   else rnd (rnd 95.88 / rnd (rnd (8128 / real_of_int (p1 + p2)) + 100)))
             else 0);
          tndTerm =
            (case tri of
               None \<Rightarrow> Some 0
             | Some tr \<Rightarrow>
                 (let tnd = rnd (rnd (rnd (real_of_int tr / 8227) + rnd (real_of_int noi / 12241))
                                 + rnd (real_of_int dmc / 22638))
                  in if tnd \<noteq> 0
                     then (if rnd (rnd (1 / tnd) + 100) = 0 then None
                           else Some (rnd (rnd 159.79 / rnd (rnd (1 / tnd) + 100))))
                     else Some 0))
      in case tndTerm of
           None \<Rightarrow> None
         | Some td \<Rightarrow>
             (case master of
                Num m \<Rightarrow> (let mixed = rnd (rnd (pulseTerm + td) * m)
                          in Some (rnd (rnd (mixed * 2) - 1)))
              | _ \<Rightarrow> None))"

definition apu_mix_rounded :: "(real \<Rightarrow> real) \<Rightarrow> apu \<Rightarrow> js_error + real option" where
  "apu_mix_rounded rnd s =
     (case pulse_out (a_pulse1 s) of
        Inl e \<Rightarrow> Inl e
      | Inr p1 \<Rightarrow>
          (case pulse_out (a_pulse2 s) of
             Inl e \<Rightarrow> Inl e
           | Inr p2 \<Rightarrow>
               Inr (mix_sample_rounded rnd p1 p2 (triangle_out (a_triangle s))
                      (noise_out (a_noise s)) (dmc_out (a_dmc s)) (a_master s))))"

definition apu_setVolume :: "js_num \<Rightarrow> apu \<Rightarrow> apu" where
  "apu_setVolume v s = s\<lparr>a_master := clamp01 v\<rparr>"

definition apu_write :: "int \<Rightarrow> int \<Rightarrow> apu \<Rightarrow> apu" where
  "apu_write addr v0 s =
     (let v = js_and v0 0xFF in
      if addr = 0x4000 then s\<lparr>a_pulse1 := pulse_write0 v (a_pulse1 s)\<rparr>
      else if addr = 0x4001 then s\<lparr>a_pulse1 := pulse_write1 v (a_pulse1 s)\<rparr>
      else if addr = 0x4002 then s\<lparr>a_pulse1 := pulse_write2 v (a_pulse1 s)\<rparr>
      else if addr = 0x4003 then s\<lparr>a_pulse1 := pulse_write3 v (a_pulse1 s)\<rparr>
      else if addr = 0x4004 then s\<lparr>a_pulse2 := pulse_write0 v (a_pulse2 s)\<rparr>
      else if addr = 0x4005 then s\<lparr>a_pulse2 := pulse_write1 v (a_pulse2 s)\<rparr>
      else if addr = 0x4006 then s\<lparr>a_pulse2 := pulse_write2 v (a_pulse2 s)\<rparr>
      else if addr = 0x4007 then s\<lparr>a_pulse2 := pulse_write3 v (a_pulse2 s)\<rparr>
      else if addr = 0x4008 then s\<lparr>a_triangle := triangle_write0 v (a_triangle s)\<rparr>
      else if addr = 0x400A then s\<lparr>a_triangle := triangle_write2 v (a_triangle s)\<rparr>
      else if addr = 0x400B then s\<lparr>a_triangle := triangle_write3 v (a_triangle s)\<rparr>
      else if addr = 0x400C then s\<lparr>a_noise := noise_write0 v (a_noise s)\<rparr>
      else if addr = 0x400E then s\<lparr>a_noise := noise_write2 v (a_noise s)\<rparr>
      else if addr = 0x400F then s\<lparr>a_noise := noise_write3 v (a_noise s)\<rparr>
      else if addr = 0x4010 then s\<lparr>a_dmc := dmc_write0 v (a_dmc s)\<rparr>
      else if addr = 0x4011 then s\<lparr>a_dmc := dmc_write1 v (a_dmc s)\<rparr>
      else if addr = 0x4012 then s\<lparr>a_dmc := dmc_write2 v (a_dmc s)\<rparr>
      else if addr = 0x4013 then s\<lparr>a_dmc := dmc_write3 v (a_dmc s)\<rparr>
      else if addr = 0x4015 then
        (let enableDmc = (js_and v 0x10 \<noteq> 0);
             s1 = s\<lparr> a_pulse1 := pulse_setEnabled (js_and v 1 \<noteq> 0) (a_pulse1 s),
                    a_pulse2 := pulse_setEnabled (js_and v 2 \<noteq> 0) (a_pulse2 s),
                    a_triangle := triangle_setEnabled (js_and v 4 \<noteq> 0) (a_triangle s),
                    a_noise := noise_setEnabled (js_and v 8 \<noteq> 0) (a_noise s),
                    a_dmc := dmc_setEnabled enableDmc (a_dmc s) \<rparr>;
             s2 = (if \<not> enableDmc then s1\<lparr>a_dmc := (a_dmc s1)\<lparr>d_irq := False\<rparr>\<rparr> else s1)
         in apu_updateIRQLine s2)
      else if addr = 0x4017 then
        (let s1 = s\<lparr>a_mode5 := js_and v 0x80 \<noteq> 0, a_irqInhibit := js_and v 0x40 \<noteq> 0\<rparr>;
             s2 = (if a_irqInhibit s1 then s1\<lparr>a_frameIRQ := False\<rparr> else s1);
             s3 = s2\<lparr>a_seqTime := 0\<rparr>;
             s4 = (if a_mode5 s3 then apu_clockQuarterHalf s3 else s3)
         in apu_updateIRQLine s4)
      else s)"

definition apu_read :: "int \<Rightarrow> apu \<Rightarrow> int \<times> apu" where
  "apu_read addr s =
     (if addr \<noteq> 0x4015 then (0, s)
      else
        (let p1 = (if length_zero (p_len (a_pulse1 s)) then 0 else 1);
             p2 = (if length_zero (p_len (a_pulse2 s)) then 0 else 2);
             tri = (if length_zero (t_len (a_triangle s)) then 0 else 4);
             noi = (if length_zero (n_len (a_noise s)) then 0 else 8);
             dmcActive = (if dmc_statusActiveBit (a_dmc s) \<noteq> 0 then 16 else 0);
             frameIrqBit = (if a_frameIRQ s then 0x40 else 0);
             dmcIrqBit = (if d_irq (a_dmc s) then 0x80 else 0);
             val = js_or (js_or (js_or (js_or (js_or (js_or p1 p2) tri) noi) dmcActive)
                            frameIrqBit) dmcIrqBit;
             s1 = s\<lparr>a_frameIRQ := False, a_dmc := (a_dmc s)\<lparr>d_irq := False\<rparr>\<rparr>
         in (val, apu_updateIRQLine s1)))"

text \<open>
  One iteration of the loop of \<open>step(cycles)\<close>, in three parts: the channel clocks,
  the frame sequencer, and the resampler, which alone can throw (through \<open>_mix\<close>).
\<close>

definition apu_clockChannels :: "apu \<Rightarrow> apu" where
  "apu_clockChannels s =
     s\<lparr> a_pulse1 := pulse_clock (a_pulse1 s), a_pulse2 := pulse_clock (a_pulse2 s),
        a_triangle := triangle_clock (a_triangle s), a_noise := noise_clock (a_noise s),
        a_dmc := dmc_clock (a_dmc s) \<rparr>"

definition apu_sequencer :: "apu \<Rightarrow> apu" where
  "apu_sequencer s =
     (let s1 = s\<lparr>a_seqTime := to_double (a_seqTime s + 1)\<rparr>;
          t = a_seqTime s1;
          q1 = to_double (qPeriod * 1); q2 = to_double (qPeriod * 2);
          q3 = to_double (qPeriod * 3); q4 = to_double (qPeriod * 4);
          s2 = (if a_phase s1 = None \<or> a_phase s1 = Some 0 then s1\<lparr>a_phase := Some 0\<rparr>
                else s1);
          s3 = (if a_phase s2 = Some 0 \<and> t \<ge> q1
                then (apu_clockQuarter s2)\<lparr>a_phase := Some 1\<rparr> else s2);
          s4 = (if a_phase s3 = Some 1 \<and> t \<ge> q2
                then (apu_clockQuarterHalf s3)\<lparr>a_phase := Some 2\<rparr> else s3);
          s5 = (if a_phase s4 = Some 2 \<and> t \<ge> q3
                then (apu_clockQuarter s4)\<lparr>a_phase := Some 3\<rparr> else s4)
      in if a_phase s5 = Some 3 \<and> t \<ge> q4 then
           (let s6 = apu_clockQuarterHalf s5;
                s7 = (if \<not> a_mode5 s6 \<and> \<not> a_irqInhibit s6 then s6\<lparr>a_frameIRQ := True\<rparr>
                      else s6);
                s8 = apu_updateIRQLine s7
            in s8\<lparr>a_seqTime := to_double (a_seqTime s8 - q4), a_phase := Some 0,
                  a_wraps := a_wraps s8 + 1\<rparr>)
         else s5)"

definition apu_resample :: "apu \<Rightarrow> js_error + apu" where
  "apu_resample s =
     (let s1 = s\<lparr>a_sampleTimer := to_double (a_sampleTimer s + 1)\<rparr> in
      if a_sampleTimer s1 \<ge> a_samplePeriod s1 then
        (let s2 = s1\<lparr>a_sampleTimer := to_double (a_sampleTimer s1 - a_samplePeriod s1)\<rparr> in
         case apu_mix s2 of
           Inl e \<Rightarrow> Inl e
         | Inr x \<Rightarrow> Inr (s2\<lparr>a_samples := a_samples s2 @ [x]\<rparr>))
      else Inr s1)"

definition apu_cycle :: "apu \<Rightarrow> js_error + apu" where
  "apu_cycle s = apu_resample (apu_sequencer (apu_clockChannels s))"

text \<open>The loop of \<open>step\<close>, run \<open>n\<close> times; an exception ends it.\<close>

primrec apu_cycles :: "nat \<Rightarrow> apu \<Rightarrow> js_error + apu" where
  "apu_cycles 0 s = Inr s"
| "apu_cycles (Suc n) s =
     (case apu_cycle s of Inl e \<Rightarrow> Inl e | Inr s1 \<Rightarrow> apu_cycles n s1)"

definition apu_step :: "int \<Rightarrow> apu \<Rightarrow> js_error + apu" where
  "apu_step cycles s = apu_cycles (nat cycles) s"

section \<open>Invariants, projections and sample states\<close>

text \<open>
  What the proofs below need beside the model: the predicates they carry through a
  run, the frame sequencer and the DMC clock cut into the steps the proofs follow, and
  the states the examples start from.
\<close>

definition ppu_inv :: "ppu \<Rightarrow> bool" where
  "ppu_inv s \<longleftrightarrow> 0 \<le> ppu_cycle s \<and> ppu_cycle s \<le> 340 \<and>
     0 \<le> ppu_scanline s \<and> ppu_scanline s \<le> 261 \<and>
     (vblank s \<longleftrightarrow> 241 \<le> ppu_scanline s)"

definition lfsr_ok :: "noise \<Rightarrow> bool" where
  "lfsr_ok x \<longleftrightarrow> 0 < n_lfsr x \<and> n_lfsr x < 2 ^ 15"

text \<open>
  A state with both pulses and the triangle at 15 and the DMC at 127, reached from a
  new APU by register writes alone.
\<close>

definition loud :: apu where
  "loud = apu_write 0x4017 0x80 (apu_write 0x4011 0x7F
     (apu_write 0x400B 0x08 (apu_write 0x400A 0xFF (apu_write 0x4008 0xFF
     (apu_write 0x4007 0x08 (apu_write 0x4006 0xFF (apu_write 0x4004 0xFF
     (apu_write 0x4003 0x08 (apu_write 0x4002 0xFF (apu_write 0x4000 0xFF
     (apu_write 0x4015 0x1F (apu_init (\<lambda>a. 0) 48000))))))))))))"

text \<open>
  The frame sequencer of \<open>step\<close> on the fields it reads and writes alone: phase,
  accumulator, mode, inhibit, frame IRQ, and the three counters. \<open>seq_next\<close> is one
  cycle of it, in the order of the source: count the cycle, then the four boundary
  checks one after the other. \<open>seq_fields_sequencer\<close> proves that this is what
  \<open>apu_sequencer\<close> does to those fields. \<open>phase_at t\<close> is the phase a sequence
  started at phase 0 has reached at accumulator value \<open>t\<close>. \<open>seq_grid t\<close> says that
  \<open>t\<close> is a whole number of steps of \<open>2\<^sup>-\<^sup>3\<^sup>8\<close>, the spacing of the doubles
  between 16384 and 32768, where the fourth boundary lies; \<open>grid_reachable\<close> proves
  that the accumulator of an APU is never anything else.
\<close>

type_synonym seq_state = "int option \<times> real \<times> bool \<times> bool \<times> bool \<times> nat \<times> nat \<times> nat"

definition seq_fields :: "apu \<Rightarrow> seq_state" where
  "seq_fields s = (a_phase s, a_seqTime s, a_mode5 s, a_irqInhibit s, a_frameIRQ s,
     a_quarters s, a_halves s, a_wraps s)"

definition seq_tick :: "int \<Rightarrow> real \<Rightarrow> nat \<Rightarrow> seq_state \<Rightarrow> seq_state" where
  "seq_tick p b k = (\<lambda>(ph, t, m5, inh, firq, q, h, w).
     if ph = Some p \<and> t \<ge> b then (Some (p + 1), t, m5, inh, firq, q + 1, h + k, w)
     else (ph, t, m5, inh, firq, q, h, w))"

definition seq_wrap :: "seq_state \<Rightarrow> seq_state" where
  "seq_wrap = (\<lambda>(ph, t, m5, inh, firq, q, h, w).
     if ph = Some 3 \<and> t \<ge> to_double (qPeriod * 4)
     then (Some 0, to_double (t - to_double (qPeriod * 4)), m5, inh,
           firq \<or> (\<not> m5 \<and> \<not> inh), q + 1, h + 1, w + 1)
     else (ph, t, m5, inh, firq, q, h, w))"

definition seq_begin :: "seq_state \<Rightarrow> seq_state" where
  "seq_begin = (\<lambda>(ph, t, m5, inh, firq, q, h, w).
     ((if ph = None \<or> ph = Some 0 then Some 0 else ph), to_double (t + 1), m5, inh, firq,
      q, h, w))"

definition seq_next :: "seq_state \<Rightarrow> seq_state" where
  "seq_next x =
     seq_wrap (seq_tick 2 (to_double (qPeriod * 3)) 0 (seq_tick 1 (to_double (qPeriod * 2)) 1
       (seq_tick 0 (to_double (qPeriod * 1)) 0 (seq_begin x))))"

definition phase_at :: "real \<Rightarrow> int" where
  "phase_at t = (if t < to_double (qPeriod * 1) then 0
                 else if t < to_double (qPeriod * 2) then 1
                 else if t < to_double (qPeriod * 3) then 2 else 3)"

definition seq_grid :: "real \<Rightarrow> bool" where
  "seq_grid t \<longleftrightarrow> of_int \<lfloor>t * 2 ^ 38\<rfloor> = t * 2 ^ 38"

text \<open>The length of a sequence: \<open>q4\<close> of \<open>step\<close>, the fourth boundary.\<close>

definition seqPeriod :: real where
  "seqPeriod = to_double (qPeriod * 4)"

text \<open>
  The channels as the frame sequencer sees them: each with the counters that its own
  \<open>clock()\<close> drives, and that no tick reads or writes, set to 0. \<open>quarter_all\<close>
  and \<open>half_all\<close> are one quarter-frame and one half-frame tick given to the four
  of them.
\<close>

type_synonym channels = "pulse \<times> pulse \<times> triangle \<times> noise"

definition pulse_view :: "pulse \<Rightarrow> pulse" where
  "pulse_view p = p\<lparr>p_dutyStep := 0, p_timerCnt := 0\<rparr>"

definition triangle_view :: "triangle \<Rightarrow> triangle" where
  "triangle_view t = t\<lparr>t_timerCnt := 0, t_step := 0\<rparr>"

definition noise_view :: "noise \<Rightarrow> noise" where
  "noise_view x = x\<lparr>n_timerCnt := 0, n_lfsr := 0\<rparr>"

definition frame_view :: "apu \<Rightarrow> channels" where
  "frame_view s = (pulse_view (a_pulse1 s), pulse_view (a_pulse2 s),
     triangle_view (a_triangle s), noise_view (a_noise s))"

definition quarter_all :: "channels \<Rightarrow> channels" where
  "quarter_all = (\<lambda>(p1, p2, tr, no).
     (pulse_quarter p1, pulse_quarter p2, triangle_quarter tr, noise_quarter no))"

definition half_all :: "channels \<Rightarrow> channels" where
  "half_all = (\<lambda>(p1, p2, tr, no). (pulse_half p1, pulse_half p2, triangle_half tr, noise_half no))"

text \<open>
  \<open>delivered s0 s\<close>: the channels of \<open>s\<close> are those of \<open>s0\<close> after as many
  quarter-frame and half-frame ticks as the two counters have gone up from \<open>s0\<close> to
  \<open>s\<close>. The two kinds of tick write different fields and neither reads what the
  other writes (\<open>quarter_half\<close>), so the order in which they came does not matter.
\<close>

definition delivered :: "apu \<Rightarrow> apu \<Rightarrow> bool" where
  "delivered s0 s \<longleftrightarrow> a_quarters s0 \<le> a_quarters s \<and> a_halves s0 \<le> a_halves s \<and>
     frame_view s = (half_all ^^ (a_halves s - a_halves s0))
                      ((quarter_all ^^ (a_quarters s - a_quarters s0)) (frame_view s0))"

definition duty_ok :: "apu \<Rightarrow> bool" where
  "duty_ok s \<longleftrightarrow> 0 \<le> p_duty (a_pulse1 s) \<and> p_duty (a_pulse1 s) < 4 \<and>
     0 \<le> p_duty (a_pulse2 s) \<and> p_duty (a_pulse2 s) < 4"

definition duties :: "apu \<Rightarrow> int \<times> int" where
  "duties s = (p_duty (a_pulse1 s), p_duty (a_pulse2 s))"

definition phase_num :: "apu \<Rightarrow> nat" where
  "phase_num s = (case a_phase s of None \<Rightarrow> 0 | Some p \<Rightarrow> nat p)"

definition seq_lockstep :: "seq_state \<Rightarrow> seq_state \<Rightarrow> bool" where
  "seq_lockstep = (\<lambda>(ph0, t0, m50, inh0, firq0, q0, h0, w0) (ph, t, m5, inh, firq, q, h, w).
     (ph = None \<or> ph = Some 0 \<or> ph = Some 1 \<or> ph = Some 2 \<or> ph = Some 3) \<and>
     q + 4 * w0 = q0 + 4 * w + (case ph of None \<Rightarrow> 0 | Some p \<Rightarrow> nat p) \<and>
     h + 2 * w0 = h0 + 2 * w + (case ph of None \<Rightarrow> 0 | Some p \<Rightarrow> if 2 \<le> p then 1 else 0) \<and>
     m5 = m50 \<and> inh = inh0 \<and> w0 \<le> w \<and>
     (firq \<longleftrightarrow> firq0 \<or> (\<not> m50 \<and> \<not> inh0 \<and> w0 < w)))"

text \<open>
  The counters of a DMC are never negative; \<open>dmc_wait\<close> bounds the clocks until the
  sample buffer is emptied into the shifter.
\<close>

definition dmc_wf :: "dmc \<Rightarrow> bool" where
  "dmc_wf d \<longleftrightarrow> 0 \<le> d_timer d \<and> 0 \<le> d_timerCnt d \<and> 0 \<le> d_bitsRemaining d \<and>
     0 \<le> d_bytesRemaining d"

definition dmc_wait :: "dmc \<Rightarrow> int" where
  "dmc_wait d = (if d_sampleBufferEmpty d then 0
                 else 1 + d_timerCnt d + d_bitsRemaining d * (d_timer d + 1))"

text \<open>
  The body of \<open>DMC.clock()\<close> between its two calls of \<open>refillBufferIfNeeded\<close>,
  without the second call; \<open>dmc_clock_parts\<close> puts the clock back together from it.
\<close>

definition dmc_timerPart :: "dmc \<Rightarrow> dmc" where
  "dmc_timerPart d1 =
     (if d_timerCnt d1 = 0 then
        (let d2 = d1\<lparr>d_timerCnt := d_timer d1\<rparr> in
         if d_bitsRemaining d2 = 0 then
           (if \<not> d_sampleBufferEmpty d2
            then d2\<lparr> d_shiftReg := d_sampleBuffer d2, d_sampleBufferEmpty := True,
                        d_bitsRemaining := 8 \<rparr>
            else d2)
         else
           (let d3 = (if js_and (d_shiftReg d2) 1 \<noteq> 0
                      then (if d_dac d2 \<le> 125 then d2\<lparr>d_dac := d_dac d2 + 2\<rparr> else d2)
                      else (if d_dac d2 \<ge> 2 then d2\<lparr>d_dac := d_dac d2 - 2\<rparr> else d2))
            in d3\<lparr> d_shiftReg := js_shr (d_shiftReg d3) 1,
                   d_bitsRemaining := d_bitsRemaining d3 - 1 \<rparr>))
      else d1\<lparr>d_timerCnt := d_timerCnt d1 - 1\<rparr>)"

text \<open>Everything a caller can do to an APU, for statements about every call.\<close>

datatype apu_op = Write int int | Read int | SetVolume js_num | Cycle

fun apu_do :: "apu_op \<Rightarrow> apu \<Rightarrow> js_error + apu" where
  "apu_do (Write a v) s = Inr (apu_write a v s)"
| "apu_do (Read a) s = Inr (snd (apu_read a s))"
| "apu_do (SetVolume v) s = Inr (apu_setVolume v s)"
| "apu_do Cycle s = apu_cycle s"

primrec apu_run :: "apu_op list \<Rightarrow> apu \<Rightarrow> js_error + apu" where
  "apu_run [] s = Inr s"
| "apu_run (a # as) s = (case apu_do a s of Inl e \<Rightarrow> Inl e | Inr s1 \<Rightarrow> apu_run as s1)"

text \<open>
  What every run keeps true of the sequencer: the accumulator on the grid and below
  the fourth boundary, and the phase one of the four, if set.
\<close>

definition seq_ok :: "seq_state \<Rightarrow> bool" where
  "seq_ok = (\<lambda>(ph, t, m5, inh, firq, q, h, w). seq_grid t \<and> 0 \<le> t \<and> t < seqPeriod \<and>
     (ph = None \<or> ph = Some 0 \<or> ph = Some 1 \<or> ph = Some 2 \<or> ph = Some 3))"

text \<open>
  A new APU with pulse 1 enabled and a note struck on it: \<open>$4015 = 0x01\<close>,
  \<open>$4003 = 0x08\<close>, which loads the length counter with 254 and restarts the envelope.
\<close>

definition struck :: apu where
  "struck = apu_write 0x4003 0x08 (apu_write 0x4015 0x01 (apu_init (\<lambda>a. 0) 48000))"

text \<open>
  A new APU programmed to play a 17-byte sample once, with the DMC IRQ enabled:
  \<open>$4010 = 0x8F\<close>, \<open>$4013 = 1\<close>, \<open>$4015 = 0x10\<close>.
\<close>

definition playing :: apu where
  "playing = apu_write 0x4015 0x10 (apu_write 0x4013 1 (apu_write 0x4010 0x8F
     (apu_init (\<lambda>a. 0) 48000)))"

section \<open>Facts about the JavaScript operators\<close>

lemma toInt32_id: "- (2 ^ 31) \<le> x \<Longrightarrow> x < 2 ^ 31 \<Longrightarrow> toInt32 x = x"
  unfolding toInt32_def by (simp add: signed_take_bit_int_eq_self)

lemma js_and_0x80: "js_and x 0x80 \<noteq> 0 \<longleftrightarrow> bit x 7"
proof -
  have "signed_take_bit 31 x AND 2 ^ 7 = 0 \<longleftrightarrow> \<not> bit (signed_take_bit 31 x) 7"
    by (rule and_exp_eq_0_iff_not_bit)
  moreover have "bit (signed_take_bit 31 x) 7 = bit x 7"
    by (simp add: bit_signed_take_bit_iff)
  ultimately show ?thesis
    by (simp add: js_and_def toInt32_def)
qed

lemma bit7_js_or: "bit (js_or a 0x80) 7"
  by (simp add: js_or_def toInt32_def bit_or_iff)

lemma bit7_js_and: "\<not> bit (js_and a 0x7F) 7"
  by (simp add: js_and_def toInt32_def bit_and_iff)


lemma mod_id_iff: "0 < (m::int) \<Longrightarrow> (x = x mod m) = (0 \<le> x \<and> x < m)"
  by (metis mod_pos_pos_trivial pos_mod_bound pos_mod_sign)

lemma js_and_31:
  assumes "0 \<le> i" "i < 32"
  shows "js_and i 0x1F = i"
proof -
  have "toInt32 i = i" using assms by (intro toInt32_id) auto
  moreover have "toInt32 31 = 31" by (simp add: toInt32_def)
  moreover have "i AND 31 = take_bit 5 i"
    by (simp add: take_bit_eq_mask mask_eq_exp_minus_1)
  ultimately show ?thesis using assms by (simp add: js_and_def take_bit_int_eq_self)
qed

lemma js_and_bounds:
  "0 \<le> m \<Longrightarrow> m < 2 ^ 31 \<Longrightarrow> 0 \<le> js_and a m \<and> js_and a m \<le> m"
  unfolding js_and_def by (simp add: toInt32_id AND_upper2')

lemma js_and_1_cases: "js_and a 1 = 0 \<or> js_and a 1 = 1"
  using js_and_bounds [of 1 a] by auto

lemma js_xor_bits:
  assumes "a = 0 \<or> a = 1" "b = 0 \<or> b = 1"
  shows "js_xor a b = 0 \<or> js_xor a b = 1"
  using assms by (auto simp: js_xor_def toInt32_def)

lemmas js_defs = js_and_def js_or_def js_xor_def js_shl_def js_shr_def toInt32_def
  js_index_def js_or_else_def

section \<open>Facts about doubles\<close>

lemma round_even_of_int: "round_even (of_int k) = k"
  by (simp add: round_even_def)

lemma pow2_less_D: "(2::real) powi a < 2 powi b \<Longrightarrow> a < b"
  using power_int_increasing [of b a "2::real"] by (cases "a < b") auto

lemma pow2_minus_nat: "0 \<le> n \<Longrightarrow> (2::real) powi (- n) = 1 / 2 ^ nat n"
  by (simp add: power_int_minus_divide power_int_nonneg_exp)

lemma expo_bounds:
  assumes "x \<noteq> 0"
  shows "2 powi expo x \<le> \<bar>x\<bar>" "\<bar>x\<bar> < 2 powi (expo x + 1)"
proof -
  have "2 powi expo x \<le> \<bar>x\<bar> \<and> \<bar>x\<bar> < 2 powi (expo x + 1)"
  proof (cases "1 \<le> \<bar>x\<bar>")
    case True
    define n where "n = \<lfloor>\<bar>x\<bar>\<rfloor>"
    have n: "0 < n" using True by (simp add: n_def)
    have b: "2 ^ nat (bitlen n - 1) \<le> n" "n < 2 ^ nat (bitlen n)"
      using bitlen_bounds [OF n] by simp_all
    have bl: "1 \<le> bitlen n" using n by (simp add: bitlen_alt_def)
    have e: "expo x = bitlen n - 1" using True by (simp add: expo_def n_def)
    have "real_of_int (2 ^ nat (bitlen n - 1)) \<le> real_of_int n"
      using b(1) by (simp only: of_int_le_iff)
    then have "2 ^ nat (bitlen n - 1) \<le> real_of_int n" by simp
    also have "\<dots> \<le> \<bar>x\<bar>" by (simp add: n_def)
    finally have lo: "2 powi (bitlen n - 1) \<le> \<bar>x\<bar>"
      using bl by (simp add: power_int_def)
    have "n + 1 \<le> 2 ^ nat (bitlen n)" using b(2) by simp
    then have "real_of_int (n + 1) \<le> real_of_int (2 ^ nat (bitlen n))"
      by (simp only: of_int_le_iff)
    then have "real_of_int n + 1 \<le> 2 ^ nat (bitlen n)" by simp
    moreover have "\<bar>x\<bar> < real_of_int n + 1" unfolding n_def by linarith
    ultimately have "\<bar>x\<bar> < 2 ^ nat (bitlen n)" by linarith
    then have hi: "\<bar>x\<bar> < 2 powi (bitlen n)"
      using bl by (simp add: power_int_def)
    show ?thesis using lo hi e by simp
  next
    case False
    define y where "y = 1 / \<bar>x\<bar>"
    define c where "c = \<lceil>y\<rceil> - 1"
    have xp: "0 < \<bar>x\<bar>" using assms by simp
    have y1: "1 < y" using False xp by (simp add: y_def)
    have cy: "real_of_int c < y" "y \<le> real_of_int c + 1"
      unfolding c_def using ceiling_correct [of y] by simp_all
    have c: "0 < c" using y1 cy by linarith
    have b: "2 ^ nat (bitlen c - 1) \<le> c" "c < 2 ^ nat (bitlen c)"
      using bitlen_bounds [OF c] by simp_all
    have bl: "1 \<le> bitlen c" using c by (simp add: bitlen_alt_def)
    have e: "expo x = - bitlen c" using False by (simp add: expo_def c_def y_def)
    have "real_of_int (2 ^ nat (bitlen c - 1)) \<le> real_of_int c"
      using b(1) by (simp only: of_int_le_iff)
    then have "2 ^ nat (bitlen c - 1) \<le> real_of_int c" by simp
    then have lo: "2 ^ nat (bitlen c - 1) < y" using cy(1) by linarith
    have "c + 1 \<le> 2 ^ nat (bitlen c)" using b(2) by simp
    then have "real_of_int (c + 1) \<le> real_of_int (2 ^ nat (bitlen c))"
      by (simp only: of_int_le_iff)
    then have "real_of_int c + 1 \<le> 2 ^ nat (bitlen c)" by simp
    then have hi: "y \<le> 2 ^ nat (bitlen c)" using cy(2) by linarith
    have x: "\<bar>x\<bar> = 1 / y" using xp by (simp add: y_def)
    have yp: "0 < y" using y1 by simp
    have "1 / 2 ^ nat (bitlen c) \<le> 1 / y"
      using hi yp by (intro divide_left_mono) auto
    then have r1: "2 powi (- bitlen c) \<le> \<bar>x\<bar>"
      using bl x by (simp add: power_int_def field_simps)
    have "1 / y < 1 / 2 ^ nat (bitlen c - 1)"
      using lo yp by (intro divide_strict_left_mono) auto
    moreover have "(2::real) powi (- bitlen c + 1) = 1 / 2 ^ nat (bitlen c - 1)"
      using pow2_minus_nat [of "bitlen c - 1"] bl by simp
    ultimately have r2: "\<bar>x\<bar> < 2 powi (- bitlen c + 1)"
      using x by simp
    show ?thesis using r1 r2 e by simp
  qed
  then show "2 powi expo x \<le> \<bar>x\<bar>" "\<bar>x\<bar> < 2 powi (expo x + 1)" by simp_all
qed

lemma to_double_exact:
  assumes x: "x = real_of_int k * 2 powi m" and k: "\<bar>k\<bar> < 2 ^ 53" and m: "- 1074 \<le> m"
  shows "to_double x = x"
proof (cases "x = 0")
  case True
  then show ?thesis by (simp add: to_double_def)
next
  case False
  define E where "E = max (expo x) (- 1022) - 52"
  have "\<bar>x\<bar> = real_of_int \<bar>k\<bar> * 2 powi m" by (simp add: x abs_mult)
  also have "\<dots> < 2 ^ 53 * 2 powi m"
  proof -
    have "real_of_int \<bar>k\<bar> < real_of_int (2 ^ 53)" using k by (simp only: of_int_less_iff)
    then have "real_of_int \<bar>k\<bar> < 2 ^ 53" by simp
    then show ?thesis by (intro mult_strict_right_mono) auto
  qed
  also have "\<dots> = 2 powi (m + 53)" by (simp add: power_int_add)
  finally have "2 powi expo x < (2::real) powi (m + 53)"
    using expo_bounds(1) [OF False] by linarith
  then have "expo x < m + 53" by (rule pow2_less_D)
  then have Em: "E \<le> m" using m by (simp add: E_def)
  have "x / 2 powi E = real_of_int k * (2 powi m / 2 powi E)" by (simp add: x)
  also have "2 powi m / 2 powi E = (2::real) powi (m - E)" by (simp add: power_int_diff)
  also have "\<dots> = 2 ^ nat (m - E)" using Em by (simp add: power_int_def)
  finally have q: "x / 2 powi E = real_of_int (k * 2 ^ nat (m - E))" by simp
  have "to_double x = real_of_int (round_even (x / 2 powi E)) * 2 powi E"
    using False by (simp add: to_double_def E_def Let_def)
  also have "\<dots> = real_of_int (k * 2 ^ nat (m - E)) * 2 powi E"
    unfolding q round_even_of_int ..
  also have "\<dots> = x / 2 powi E * 2 powi E" unfolding q ..
  also have "\<dots> = x" by simp
  finally show ?thesis .
qed

lemma round_even_cases: "round_even y = \<lfloor>y\<rfloor> \<or> round_even y = \<lfloor>y\<rfloor> + 1"
  by (simp add: round_even_def Let_def)

lemma round_even_mono:
  assumes "a \<le> b"
  shows "round_even a \<le> round_even b"
proof (cases "\<lfloor>a\<rfloor> = \<lfloor>b\<rfloor>")
  case True
  have "a - of_int \<lfloor>a\<rfloor> \<le> b - of_int \<lfloor>b\<rfloor>" using assms True by simp
  then show ?thesis using True by (auto simp add: round_even_def Let_def)
next
  case False
  have "\<lfloor>a\<rfloor> \<le> \<lfloor>b\<rfloor>" using assms by (rule floor_mono)
  then have "\<lfloor>a\<rfloor> + 1 \<le> \<lfloor>b\<rfloor>" using False by simp
  then show ?thesis using round_even_cases [of a] round_even_cases [of b] by auto
qed

lemma round_even_ge: "real_of_int n \<le> y \<Longrightarrow> n \<le> round_even y"
  using round_even_mono [of "real_of_int n" y] by (simp add: round_even_of_int)

lemma round_even_le: "y \<le> real_of_int n \<Longrightarrow> round_even y \<le> n"
  using round_even_mono [of y "real_of_int n"] by (simp add: round_even_of_int)

lemma round_even_minus: "round_even (- y) = - round_even y"
proof (cases "y \<in> \<int>")
  case True
  then obtain k where "y = of_int k" by (auto elim: Ints_cases)
  then have "- y = of_int (- k)" by simp
  then show ?thesis using \<open>y = of_int k\<close> by (simp only: round_even_of_int)
next
  case False
  then have ne: "y \<noteq> of_int \<lfloor>y\<rfloor>" by (metis Ints_of_int)
  have lt: "of_int \<lfloor>y\<rfloor> < y" using ne of_int_floor_le [of y] by linarith
  have f: "\<lfloor>- y\<rfloor> = - \<lfloor>y\<rfloor> - 1"
  proof (rule floor_unique)
    show "real_of_int (- \<lfloor>y\<rfloor> - 1) \<le> - y" by simp linarith
    show "- y < real_of_int (- \<lfloor>y\<rfloor> - 1) + 1" using lt by simp
  qed
  show ?thesis
    unfolding round_even_def Let_def f using lt by auto
qed

lemma expo_minus: "expo (- x) = expo x"
  by (simp add: expo_def)

lemma to_double_minus: "to_double (- x) = - to_double x"
  by (simp add: to_double_def expo_minus Let_def round_even_minus)

lemma expo_mono:
  assumes "0 < x" "x \<le> y"
  shows "expo x \<le> expo y"
proof -
  have "2 powi expo x \<le> x" using expo_bounds(1) [of x] assms(1) by simp
  moreover have "y < 2 powi (expo y + 1)" using expo_bounds(2) [of y] assms by simp
  ultimately have "(2::real) powi expo x < 2 powi (expo y + 1)" using assms(2) by linarith
  then have "expo x < expo y + 1" by (rule pow2_less_D)
  then show ?thesis by simp
qed

lemma to_double_normal:
  assumes "0 < x" "- 1022 \<le> expo x"
  shows "2 powi expo x \<le> to_double x" "to_double x \<le> 2 powi (expo x + 1)"
proof -
  define u :: real where "u = 2 powi (expo x - 52)"
  have u: "0 < u" by (simp add: u_def)
  have t: "to_double x = real_of_int (round_even (x / u)) * u"
    using assms by (simp add: to_double_def Let_def u_def max_def)
  have lo: "2 powi expo x = 2 ^ 52 * u" by (simp add: u_def power_int_diff)
  have hi: "2 powi (expo x + 1) = 2 ^ 53 * u" by (simp add: u_def power_int_diff power_int_add)
  have "2 ^ 52 * u \<le> x" using expo_bounds(1) [of x] assms(1) lo by simp
  then have "real_of_int (2 ^ 52) \<le> x / u" using u by (simp add: field_simps)
  then have "2 ^ 52 \<le> round_even (x / u)" by (rule round_even_ge)
  then have "real_of_int (2 ^ 52) \<le> real_of_int (round_even (x / u))"
    by (simp only: of_int_le_iff)
  then have "2 ^ 52 * u \<le> real_of_int (round_even (x / u)) * u"
    using u by (intro mult_right_mono) simp_all
  then show "2 powi expo x \<le> to_double x" by (simp only: t lo)
  have "x < 2 ^ 53 * u" using expo_bounds(2) [of x] assms(1) hi by simp
  then have "x / u \<le> real_of_int (2 ^ 53)" using u by (simp add: field_simps)
  then have "round_even (x / u) \<le> 2 ^ 53" by (rule round_even_le)
  then have "real_of_int (round_even (x / u)) \<le> real_of_int (2 ^ 53)"
    by (simp only: of_int_le_iff)
  then have "real_of_int (round_even (x / u)) * u \<le> 2 ^ 53 * u"
    using u by (intro mult_right_mono) simp_all
  then show "to_double x \<le> 2 powi (expo x + 1)" by (simp only: t hi)
qed

lemma to_double_nonneg:
  assumes "0 \<le> x"
  shows "0 \<le> to_double x"
proof (cases "x = 0")
  case True
  then show ?thesis by (simp add: to_double_def)
next
  case False
  define u :: real where "u = 2 powi (max (expo x) (- 1022) - 52)"
  have u: "0 < u" by (simp add: u_def)
  have "real_of_int 0 \<le> x / u" using assms u by simp
  then have "0 \<le> round_even (x / u)" by (rule round_even_ge)
  then show ?thesis using False u by (simp add: to_double_def Let_def flip: u_def)
qed

lemma to_double_subnormal:
  assumes "0 < x" "expo x < - 1022"
  shows "to_double x \<le> 2 powi (- 1022)"
proof -
  define u :: real where "u = 2 powi (- 1074)"
  have u: "0 < u" by (simp add: u_def)
  have t: "to_double x = real_of_int (round_even (x / u)) * u"
    using assms by (simp add: to_double_def Let_def u_def max_def)
  have hi: "2 powi (- 1022) = 2 ^ 52 * u"
  proof -
    have "(2::real) powi (- 1022) = 2 powi (52 + (- 1074))" by simp
    also have "\<dots> = 2 powi 52 * 2 powi (- 1074)" by (rule power_int_add) simp
    finally show ?thesis by (simp add: u_def)
  qed
  have "x < 2 powi (expo x + 1)" using expo_bounds(2) [of x] assms(1) by simp
  also have "\<dots> \<le> 2 powi (- 1022)" using assms(2) by (intro power_int_increasing) simp_all
  finally have "x < 2 ^ 52 * u" using hi by simp
  then have "x / u \<le> real_of_int (2 ^ 52)" using u by (simp add: field_simps)
  then have "round_even (x / u) \<le> 2 ^ 52" by (rule round_even_le)
  then have "real_of_int (round_even (x / u)) \<le> real_of_int (2 ^ 52)"
    by (simp only: of_int_le_iff)
  then have "real_of_int (round_even (x / u)) * u \<le> 2 ^ 52 * u"
    using u by (intro mult_right_mono) simp_all
  then show ?thesis by (simp only: t hi)
qed

lemma to_double_mono_pos:
  assumes "0 < x" "x \<le> y"
  shows "to_double x \<le> to_double y"
proof (cases "max (expo x) (- 1022) = max (expo y) (- 1022)")
  case True
  define u :: real where "u = 2 powi (max (expo x) (- 1022) - 52)"
  have u: "0 < u" by (simp add: u_def)
  have "x / u \<le> y / u" using assms(2) u by (simp add: divide_right_mono)
  then have "round_even (x / u) \<le> round_even (y / u)" by (rule round_even_mono)
  then have "real_of_int (round_even (x / u)) * u \<le> real_of_int (round_even (y / u)) * u"
    using u by (intro mult_right_mono) simp_all
  moreover have "to_double x = real_of_int (round_even (x / u)) * u"
    using assms(1) by (simp add: to_double_def Let_def u_def)
  moreover have "to_double y = real_of_int (round_even (y / u)) * u"
    using assms True by (simp add: to_double_def Let_def u_def)
  ultimately show ?thesis by simp
next
  case False
  have y: "0 < y" using assms by simp
  have le: "expo x \<le> expo y" by (rule expo_mono [OF assms])
  then have lt: "expo x < expo y" "- 1022 < expo y"
    using False by (auto simp add: max_def split: if_splits)
  have "to_double x \<le> 2 powi expo y"
  proof (cases "- 1022 \<le> expo x")
    case True
    have "to_double x \<le> 2 powi (expo x + 1)" by (rule to_double_normal(2) [OF assms(1) True])
    also have "\<dots> \<le> 2 powi expo y" using lt(1) by (intro power_int_increasing) simp_all
    finally show ?thesis .
  next
    case False
    then have "to_double x \<le> 2 powi (- 1022)" using to_double_subnormal [OF assms(1)] by simp
    also have "\<dots> \<le> 2 powi expo y" using lt(2) by (intro power_int_increasing) simp_all
    finally show ?thesis .
  qed
  also have "\<dots> \<le> to_double y" using to_double_normal(1) [OF y] lt(2) by simp
  finally show ?thesis .
qed

lemma to_double_mono:
  assumes "x \<le> y"
  shows "to_double x \<le> to_double y"
proof (cases "0 < x")
  case True
  then show ?thesis using assms by (rule to_double_mono_pos)
next
  case False
  then have x: "0 \<le> - x" by simp
  have nx: "to_double x \<le> 0" using to_double_nonneg [OF x] by (simp add: to_double_minus)
  show ?thesis
  proof (cases "0 \<le> y")
    case True
    then show ?thesis using nx to_double_nonneg [of y] by linarith
  next
    case False
    then have "0 < - y" "- y \<le> - x" using assms by simp_all
    then have "to_double (- y) \<le> to_double (- x)" by (rule to_double_mono_pos)
    then show ?thesis by (simp add: to_double_minus)
  qed
qed

lemma rounding_to_double: "rounding to_double"
  unfolding rounding_def
proof (intro conjI allI impI)
  fix x y :: real
  assume "x \<le> y"
  then show "to_double x \<le> to_double y" by (rule to_double_mono)
next
  fix k :: int
  assume k: "\<bar>k\<bar> \<le> 2 ^ 53"
  show "to_double (real_of_int k / 2 ^ 30) = real_of_int k / 2 ^ 30"
  proof (cases "\<bar>k\<bar> < 2 ^ 53")
    case True
    have "real_of_int k / 2 ^ 30 = real_of_int k * 2 powi (- 30)"
      by (simp add: power_int_minus field_simps)
    then show ?thesis using to_double_exact [OF _ True, of _ "- 30"] by simp
  next
    case False
    then have "k = 2 ^ 53 \<or> k = - (2 ^ 53)" using k by auto
    then have "real_of_int k / 2 ^ 30 = real_of_int (if 0 < k then 1 else - 1) * 2 powi 23"
      by auto
    then show ?thesis
      using to_double_exact [of "real_of_int k / 2 ^ 30" "if 0 < k then 1 else - 1" 23]
      by simp
  qed
qed

lemma seq_grid_Ints: "seq_grid t \<longleftrightarrow> t * 2 ^ 38 \<in> \<int>"
  unfolding seq_grid_def by (metis Ints_cases Ints_of_int floor_of_int)

lemma to_double_grid:
  assumes "seq_grid x" "\<bar>x\<bar> < 2 ^ 15"
  shows "to_double x = x"
proof -
  obtain k where k: "x * 2 ^ 38 = real_of_int k"
    using assms(1) unfolding seq_grid_Ints by (auto elim: Ints_cases)
  then have x: "x = real_of_int k * 2 powi (- 38)" by (simp add: power_int_minus field_simps)
  have "\<bar>real_of_int k\<bar> = \<bar>x\<bar> * 2 ^ 38" using k by (simp add: abs_mult flip: k)
  also have "\<dots> < 2 ^ 15 * 2 ^ 38" using assms(2) by (intro mult_strict_right_mono) auto
  finally have "real_of_int \<bar>k\<bar> < real_of_int (2 ^ 53)" by simp
  then have "\<bar>k\<bar> < 2 ^ 53" by (simp only: of_int_less_iff)
  then show ?thesis using to_double_exact [OF x] by simp
qed

lemma thresholds:
  "to_double qPeriod = 8199484269081395 / 1099511627776"
  "to_double (qPeriod * 1) = 8199484269081395 / 1099511627776"
  "to_double (qPeriod * 2) = 8199484269081395 / 549755813888"
  "to_double (qPeriod * 3) = 3074806600905523 / 137438953472"
  "to_double (qPeriod * 4) = 8199484269081395 / 274877906944"
  by code_simp+

lemma seqPeriod_value: "seqPeriod = 8199484269081395 / 274877906944"
  by (simp add: seqPeriod_def thresholds)

lemma seq_grid_0: "seq_grid 0"
  by (simp add: seq_grid_def)

lemma seq_grid_Suc: "seq_grid t \<Longrightarrow> seq_grid (t + 1)"
  unfolding seq_grid_Ints by (simp add: distrib_right)

lemma seq_grid_add: "seq_grid t \<Longrightarrow> seq_grid (t + real n)"
proof (induction n)
  case 0
  then show ?case by simp
next
  case (Suc n)
  have e: "t + real (Suc n) = t + real n + 1" by simp
  show ?case unfolding e by (rule seq_grid_Suc [OF Suc.IH [OF Suc.prems]])
qed

lemma seq_grid_period: "seq_grid t \<Longrightarrow> seq_grid (t - seqPeriod)"
  unfolding seq_grid_Ints by (simp add: seqPeriod_value left_diff_distrib)

lemma count_exact:
  assumes "seq_grid t" "0 \<le> t" "t < seqPeriod"
  shows "to_double (t + 1) = t + 1"
  using assms(2,3) by (intro to_double_grid seq_grid_Suc assms(1)) (simp add: seqPeriod_value)

lemma restart_exact:
  assumes "seq_grid t" "seqPeriod \<le> t" "t < seqPeriod + 1"
  shows "to_double (t - seqPeriod) = t - seqPeriod"
  using assms(2,3) by (intro to_double_grid seq_grid_period assms(1)) (simp add: seqPeriod_value)

section \<open>Properties of the PPU\<close>

lemma vblank_step:
  "vblank (ppu_step s) \<longleftrightarrow>
     (340 < ppu_cycle s + 1 \<and> ppu_scanline s + 1 = 241) \<or>
     (vblank s \<and> \<not> (340 < ppu_cycle s + 1 \<and> 262 \<le> ppu_scanline s + 1))"
  by (simp add: ppu_step_def Let_def renderFrame_def vblank_def js_and_0x80
      bit7_js_or bit7_js_and)

lemma ppu_step_counters:
  "ppu_cycle (ppu_step s) = (if 340 < ppu_cycle s + 1 then 0 else ppu_cycle s + 1)"
  "ppu_scanline (ppu_step s) =
     (if 340 < ppu_cycle s + 1
      then (if 262 \<le> ppu_scanline s + 1 then 0 else ppu_scanline s + 1)
      else ppu_scanline s)"
  by (simp_all add: ppu_step_def Let_def renderFrame_def)

lemma ppu_inv_init: "ppu_inv ppu_init"
  by (simp add: ppu_inv_def ppu_init_def vblank_def js_and_def toInt32_def)

lemma ppu_inv_step: "ppu_inv s \<Longrightarrow> ppu_inv (ppu_step s)"
  unfolding ppu_inv_def vblank_step ppu_step_counters by auto

lemma ppu_inv_steps: "ppu_inv s \<Longrightarrow> ppu_inv (ppu_steps n s)"
  by (induction n arbitrary: s) (simp_all add: ppu_inv_step)

lemma read_status:
  "fst (readRegister 0x2002 s) = Some (ppu_status s)"
  "\<not> vblank (snd (readRegister 0x2002 s))"
  by (simp_all add: readRegister_def vblank_def js_and_0x80 bit7_js_and)

text \<open>
  C1. The claim: from the untoggled state, the first write to \<open>$2005\<close> sets \<open>scrollX\<close>
  and the second sets \<open>scrollY\<close>. The toggle of \<open>writeRegister\<close> is
  \<open>scrollX === null\<close>, and the constructor sets \<open>scrollX\<close> to 0, not to \<open>null\<close>.
  So on a new PPU the first write \<open>v\<close> goes to \<open>scrollY\<close> and sets \<open>scrollX\<close> to
  \<open>null\<close>, and the second write \<open>w\<close> goes to \<open>scrollX\<close>: the order is the reverse
  of the claimed one.
\<close>

theorem scroll_writes_from_reset:
  "ppu_scrollX ppu_init = Some 0 \<and>
   ppu_scrollX (writeRegister 0x2005 v ppu_init) = None \<and>
   ppu_scrollY (writeRegister 0x2005 v ppu_init) = v \<and>
   ppu_scrollX (writeRegister 0x2005 w (writeRegister 0x2005 v ppu_init)) = Some w \<and>
   ppu_scrollY (writeRegister 0x2005 w (writeRegister 0x2005 v ppu_init)) = v"
  by (simp add: writeRegister_def ppu_init_def)

text \<open>
  What the toggle does once \<open>scrollX\<close> is \<open>null\<close>: the first write sets
  \<open>scrollX\<close>, the second sets \<open>scrollY\<close> and puts \<open>null\<close> back into \<open>scrollX\<close>.
\<close>

lemma scroll_writes_from_null:
  assumes "ppu_scrollX s = None"
  shows "ppu_scrollX (writeRegister 0x2005 v s) = Some v"
    and "ppu_scrollY (writeRegister 0x2005 v s) = ppu_scrollY s"
    and "ppu_scrollY (writeRegister 0x2005 w (writeRegister 0x2005 v s)) = w"
    and "ppu_scrollX (writeRegister 0x2005 w (writeRegister 0x2005 v s)) = None"
  using assms by (simp_all add: writeRegister_def)

text \<open>
  C2, as stated, fails: \<open>addr++\<close> and \<open>oamAddr++\<close> are plain increments of a
  JavaScript Number, and nothing in the PPU masks them. Two writes of \<open>0xFF\<close> to
  \<open>$2006\<close> set \<open>addr\<close> to \<open>0xFFFF\<close>; a read of \<open>$2007\<close> then leaves
  \<open>0x10000\<close>, not 0. A write of \<open>0xFF\<close> to \<open>$2003\<close> and one write to \<open>$2004\<close>
  leave \<open>oamAddr\<close> at 256, not 0.
\<close>

theorem autoincrement_wrap_counterexample:
  "ppu_addr (writeRegister 0x2006 0xFF (writeRegister 0x2006 0xFF ppu_init)) = 0xFFFF \<and>
   ppu_addr (snd (readRegister 0x2007
       (writeRegister 0x2006 0xFF (writeRegister 0x2006 0xFF ppu_init)))) = 0x10000 \<and>
   ppu_addr (snd (readRegister 0x2007
       (writeRegister 0x2006 0xFF (writeRegister 0x2006 0xFF ppu_init))))
     \<noteq> (0xFFFF + 1) mod 2 ^ 16 \<and>
   ppu_oamAddr (writeRegister 0x2003 0xFF ppu_init) = 0xFF \<and>
   ppu_oamAddr (writeRegister 0x2004 7 (writeRegister 0x2003 0xFF ppu_init))
     \<noteq> (0xFF + 1) mod 256"
  by (simp add: writeRegister_def readRegister_def ppu_init_def js_or_def js_shl_def
      toInt32_def)

text \<open>
  C2, amended: for every PPU state, a read or a write of \<open>$2007\<close> leaves
  \<open>addr\<close> one above its old value and a write of \<open>$2004\<close> leaves \<open>oamAddr\<close> one
  above its old value, with no wrap-around; the new value is the claimed
  \<open>(old + 1) mod 2 ^ 16\<close> (or \<open>mod 256\<close>) exactly when \<open>old + 1\<close> is within
  range.
\<close>

theorem autoincrement_no_wrap:
  "ppu_addr (snd (readRegister 0x2007 s)) = ppu_addr s + 1 \<and>
   ppu_addr (writeRegister 0x2007 v s) = ppu_addr s + 1 \<and>
   ppu_oamAddr (writeRegister 0x2004 v s) = ppu_oamAddr s + 1 \<and>
   (ppu_addr (snd (readRegister 0x2007 s)) = (ppu_addr s + 1) mod 2 ^ 16
      \<longleftrightarrow> 0 \<le> ppu_addr s + 1 \<and> ppu_addr s + 1 < 2 ^ 16) \<and>
   (ppu_addr (writeRegister 0x2007 v s) = (ppu_addr s + 1) mod 2 ^ 16
      \<longleftrightarrow> 0 \<le> ppu_addr s + 1 \<and> ppu_addr s + 1 < 2 ^ 16) \<and>
   (ppu_oamAddr (writeRegister 0x2004 v s) = (ppu_oamAddr s + 1) mod 256
      \<longleftrightarrow> 0 \<le> ppu_oamAddr s + 1 \<and> ppu_oamAddr s + 1 < 256)"
  using mod_id_iff [of "2 ^ 16" "ppu_addr s + 1"] mod_id_iff [of 256 "ppu_oamAddr s + 1"]
  by (simp add: writeRegister_def readRegister_def)

lemma ppu_steps_Suc_right: "ppu_steps (Suc n) s = ppu_step (ppu_steps n s)"
  by (induction n arbitrary: s) simp_all

lemma ppu_steps_counters:
  "ppu_cycle (ppu_steps n ppu_init) = int (n mod 341) \<and>
   ppu_scanline (ppu_steps n ppu_init) = int ((n div 341) mod 262)"
proof (induction n)
  case 0
  then show ?case by (simp add: ppu_init_def)
next
  case (Suc n)
  have c: "Suc n mod 341 = (if n mod 341 = 340 then 0 else n mod 341 + 1)"
    by (simp add: mod_Suc)
  have d: "Suc n div 341 = (if n mod 341 = 340 then Suc (n div 341) else n div 341)"
    by (simp add: div_Suc c)
  have e: "Suc (n div 341) mod 262
      = (if (n div 341) mod 262 = 261 then 0 else (n div 341) mod 262 + 1)"
    by (simp add: mod_Suc)
  have b: "n mod 341 < 341" "(n div 341) mod 262 < 262" by simp_all
  show ?case
    unfolding ppu_steps_Suc_right ppu_step_counters
    using Suc.IH b by (auto simp add: c d e)
qed


text \<open>
  C4. After any number \<open>n\<close> of \<open>step()\<close> calls on a new PPU, \<open>cycle\<close> is
  \<open>n mod 341\<close> and \<open>scanline\<close> is \<open>(n div 341) mod 262\<close>, so \<open>cycle\<close> is in
  \<open>[0, 340]\<close> and \<open>scanline\<close> in \<open>[0, 261]\<close>, and the vblank bit is set exactly
  on scanlines 241 to 261. In any state \<open>s\<close>, a \<open>step()\<close> leaves the vblank bit set
  exactly when it moves \<open>scanline\<close> to 241, or the bit was set and the step is not
  the wrap-around at 262. A read of \<open>$2002\<close> returns the status as it was before the
  read and leaves the vblank bit clear.
\<close>

theorem ppu_timing_invariant:
  "ppu_cycle (ppu_steps n ppu_init) = int (n mod 341) \<and>
   ppu_scanline (ppu_steps n ppu_init) = int ((n div 341) mod 262) \<and>
   0 \<le> ppu_cycle (ppu_steps n ppu_init) \<and> ppu_cycle (ppu_steps n ppu_init) \<le> 340 \<and>
   0 \<le> ppu_scanline (ppu_steps n ppu_init) \<and> ppu_scanline (ppu_steps n ppu_init) \<le> 261 \<and>
   (vblank (ppu_steps n ppu_init) \<longleftrightarrow> 241 \<le> ppu_scanline (ppu_steps n ppu_init)) \<and>
   (vblank (ppu_step s) \<longleftrightarrow>
      (340 < ppu_cycle s + 1 \<and> ppu_scanline s + 1 = 241) \<or>
      (vblank s \<and> \<not> (340 < ppu_cycle s + 1 \<and> 262 \<le> ppu_scanline s + 1))) \<and>
   fst (readRegister 0x2002 s) = Some (ppu_status s) \<and>
   \<not> vblank (snd (readRegister 0x2002 s))"
proof -
  have "ppu_inv (ppu_steps n ppu_init)"
    by (rule ppu_inv_steps [OF ppu_inv_init])
  then show ?thesis
    unfolding ppu_inv_def
    using vblank_step [of s] read_status [of s] ppu_steps_counters [of n] by blast
qed

section \<open>Properties of the length counter and the sweep unit\<close>

lemma length_LENGTH_TABLE: "length LENGTH_TABLE = 32"
  by (simp add: LENGTH_TABLE_def)

lemma LENGTH_TABLE_pos: "i < 32 \<Longrightarrow> 0 < LENGTH_TABLE ! i"
proof -
  have "\<forall>v \<in> set LENGTH_TABLE. 0 < v" by (simp add: LENGTH_TABLE_def)
  then show "i < 32 \<Longrightarrow> 0 < LENGTH_TABLE ! i"
    using length_LENGTH_TABLE nth_mem by metis
qed

lemma length_load_value:
  assumes "0 \<le> i" "i < 32"
  shows "len_value (length_load i l) = LENGTH_TABLE ! nat i"
proof -
  have "nat i < 32" using assms by simp
  then have "0 < LENGTH_TABLE ! nat i" by (rule LENGTH_TABLE_pos)
  then show ?thesis using assms
    by (simp add: length_load_def js_and_31 js_index_def length_LENGTH_TABLE js_or_else_def)
qed

lemma length_halves_halt: "len_halt l \<Longrightarrow> length_halves n l = l"
  by (induction n arbitrary: l) (simp_all add: length_half_def)

lemma length_halves_value:
  "\<not> len_halt l \<Longrightarrow> 0 \<le> len_value l \<Longrightarrow>
     len_value (length_halves n l) = max 0 (len_value l - int n) \<and>
     \<not> len_halt (length_halves n l)"
proof (induction n arbitrary: l)
  case 0
  then show ?case by simp
next
  case (Suc n)
  have "\<not> len_halt (length_half l)" "0 \<le> len_value (length_half l)"
    using Suc.prems by (simp_all add: length_half_def)
  from Suc.IH [OF this] show ?case
    using Suc.prems by (auto simp: length_half_def)
qed

text \<open>
  C8. Loading a length counter with a 5-bit index \<open>i\<close> sets its value to entry \<open>i\<close>
  of the 32-entry \<open>LENGTH_TABLE\<close>. A half-frame tick with \<open>halt\<close> clear and a
  positive value takes 1 off; \<open>n\<close> ticks in a row leave \<open>max 0 (value - n)\<close>, so
  the value reaches 0 and stays there. With \<open>halt\<close> set, ticks change nothing.
\<close>

theorem length_counter:
  "(0 \<le> i \<and> i < 32 \<longrightarrow> len_value (length_load i l) = LENGTH_TABLE ! nat i) \<and>
   length LENGTH_TABLE = 32 \<and>
   (\<not> len_halt l \<and> len_value l > 0 \<longrightarrow> len_value (length_half l) = len_value l - 1) \<and>
   (\<not> len_halt l \<and> 0 \<le> len_value l \<longrightarrow>
      len_value (length_halves n l) = max 0 (len_value l - int n)) \<and>
   (len_halt l \<longrightarrow> length_half l = l \<and> length_halves n l = l)"
  using length_load_value [of i l] length_halves_value [of l n] length_halves_halt [of l n]
  by (auto simp: length_LENGTH_TABLE length_half_def)

theorem length_counter_witness:
  "len_value (length_load 1 length_init) = 254 \<and>
   len_value (length_half (length_load 1 length_init)) = 253 \<and>
   len_value (length_halves 254 (length_load 1 length_init)) = 0 \<and>
   len_value (length_halves 300 (length_load 1 length_init)) = 0 \<and>
   length_halves 300 (length_load 1 (length_init\<lparr>len_halt := True\<rparr>))
     = length_load 1 (length_init\<lparr>len_halt := True\<rparr>)"
proof -
  have v: "len_value (length_load 1 length_init) = 254"
    using length_counter [of 1 length_init 0] by (simp add: LENGTH_TABLE_def)
  have h: "\<not> len_halt (length_load 1 length_init)"
    by (simp add: length_load_def length_init_def)
  have h': "len_halt (length_load 1 (length_init\<lparr>len_halt := True\<rparr>))"
    by (simp add: length_load_def length_init_def)
  show ?thesis
    using v h h' length_counter [of 0 "length_load 1 length_init" 254]
      length_counter [of 0 "length_load 1 length_init" 300]
      length_counter [of 0 "length_load 1 (length_init\<lparr>len_halt := True\<rparr>)" 300]
    by simp
qed

lemma sweep_half_timer:
  "p_timer (sweep_half p) =
     (if sw_counter (p_sweep p) = 0 \<and> sw_enabled (p_sweep p) \<and> sw_shift (p_sweep p) \<noteq> 0 \<and>
         sweep_target p < 0x800 \<and> p_timer p \<ge> 8
      then sweep_target p else p_timer p)"
  by (auto simp add: sweep_half_def Let_def)

lemma sweep_target_len: "sweep_target (p\<lparr>p_len := l\<rparr>) = sweep_target p"
  by (simp add: sweep_target_def)

lemma pulse_half_timer:
  "p_timer (pulse_half p) = p_timer (sweep_half p)"
  by (simp add: pulse_half_def sweep_half_timer sweep_target_len)

lemma sweep_target_formula:
  "sw_shift (p_sweep p) \<noteq> 0 \<Longrightarrow>
   sweep_target p =
     (if sw_negate (p_sweep p)
      then p_timer p - js_shr (p_timer p) (sw_shift (p_sweep p))
           - (if sw_isPulse1 (p_sweep p) then 1 else 0)
      else p_timer p + js_shr (p_timer p) (sw_shift (p_sweep p)))"
  by (simp add: sweep_target_def Let_def)

text \<open>
  C6. On a half-frame tick of a pulse channel the timer becomes the target period
  (\<open>timer + (timer >> shift)\<close>, or \<open>timer - (timer >> shift)\<close> under negate, less
  1 more on pulse 1) when the sweep's counter is 0, the sweep is enabled with a
  nonzero shift, the target is below \<open>0x800\<close> and the timer is at least 8; in every
  other case the timer is left as it is. \<open>out()\<close> is 0 whenever the timer is below 8.
\<close>

theorem sweep_unit:
  "(let w = p_sweep p; t = p_timer p;
        target = (if sw_negate w then t - js_shr t (sw_shift w) - (if sw_isPulse1 w then 1 else 0)
                  else t + js_shr t (sw_shift w))
    in p_timer (pulse_half p) =
         (if sw_counter w = 0 \<and> sw_enabled w \<and> sw_shift w \<noteq> 0 \<and> target < 0x800 \<and> t \<ge> 8
          then target else t) \<and>
       (\<not> (target < 0x800 \<and> t \<ge> 8) \<longrightarrow> p_timer (pulse_half p) = t)) \<and>
   (p_timer p < 8 \<longrightarrow> pulse_out p = Inr 0)"
  using sweep_target_formula [of p]
  by (auto simp: Let_def pulse_half_timer sweep_half_timer pulse_out_def)

theorem sweep_unit_witness:
  "p_timer (pulse_write3 1 (pulse_write2 0 (pulse_write1 0x89 (pulse_init True)))) = 256 \<and>
   p_timer (pulse_half (pulse_write3 1 (pulse_write2 0 (pulse_write1 0x89 (pulse_init True)))))
     = 127 \<and>
   p_timer (pulse_half (pulse_write3 7 (pulse_write2 0xFF (pulse_write1 0x81 (pulse_init False)))))
     = 0x7FF \<and>
   pulse_out (pulse_write2 7 (pulse_setEnabled True (pulse_init True))) = Inr 0"
  using sweep_unit [of "pulse_write3 1 (pulse_write2 0 (pulse_write1 0x89 (pulse_init True)))"]
    sweep_unit [of "pulse_write3 7 (pulse_write2 0xFF (pulse_write1 0x81 (pulse_init False)))"]
    sweep_unit [of "pulse_write2 7 (pulse_setEnabled True (pulse_init True))"]
  by (simp add: pulse_write3_def pulse_write2_def pulse_write1_def pulse_init_def
      sweep_write_def sweep_init_def pulse_setEnabled_def Let_def
      js_and_def js_or_def js_shl_def js_shr_def toInt32_def envelope_restart_def)

section \<open>Properties of the noise channel\<close>

lemma lfsr_shift:
  assumes "0 < x" "x < 2 ^ 15" "fb = 0 \<or> fb = 1" "x = 1 \<longrightarrow> fb = 1"
  shows "0 < js_or (js_shr x 1) (js_shl fb 14) \<and> js_or (js_shr x 1) (js_shl fb 14) < 2 ^ 15"
proof -
  have tx: "toInt32 x = x" using assms by (intro toInt32_id) auto
  have s1: "js_shr x 1 = x div 2" by (simp add: js_shr_def tx drop_bit_eq_div)
  have s2: "js_shl fb 14 = fb * 16384"
    using assms(3) by (auto simp: js_shl_def toInt32_def)
  have r1: "0 \<le> x div 2" "x div 2 < 2 ^ 15" using assms by auto
  have r2: "0 \<le> fb * 16384" "fb * 16384 < 2 ^ 15" using assms(3) by auto
  have t1: "toInt32 (x div 2) = x div 2" using r1 by (intro toInt32_id) auto
  have t2: "toInt32 (fb * 16384) = fb * 16384" using r2 by (intro toInt32_id) auto
  have o: "js_or (js_shr x 1) (js_shl fb 14) = (x div 2) OR (fb * 16384)"
    by (simp add: js_or_def s1 s2 t1 t2)
  have nz: "(x div 2) OR (fb * 16384) \<noteq> 0"
  proof (cases "x = 1")
    case True
    then show ?thesis using assms(4) by simp
  next
    case False
    then have "x div 2 \<noteq> 0" using assms(1) by auto
    then show ?thesis by (simp add: or_eq_0_iff)
  qed
  have nn: "0 \<le> (x div 2) OR (fb * 16384)" using r1 r2 by simp
  have ub: "(x div 2) OR (fb * 16384) < 2 ^ 15"
    using r1 r2 by (intro OR_upper) auto
  have "0 < (x div 2) OR (fb * 16384)" using nz nn by linarith
  then show ?thesis using ub by (simp add: o)
qed

lemma noise_clock_lfsr_ok:
  assumes "lfsr_ok x"
  shows "lfsr_ok (noise_clock x)"
proof (cases "n_timerCnt x = 0")
  case False
  then show ?thesis using assms by (simp add: noise_clock_def lfsr_ok_def)
next
  case True
  define tap where "tap = (if n_mode x \<noteq> 0 then js_and (js_shr (n_lfsr x) 6) 1
                    else js_and (js_shr (n_lfsr x) 1) 1)"
  define fb where "fb = js_xor (js_and (n_lfsr x) 1) tap"
  have tb: "tap = 0 \<or> tap = 1"
    unfolding tap_def using js_and_1_cases by auto
  have fbb: "fb = 0 \<or> fb = 1"
    unfolding fb_def by (rule js_xor_bits [OF js_and_1_cases tb])
  have one: "n_lfsr x = 1 \<longrightarrow> fb = 1"
    by (simp add: fb_def tap_def js_xor_def js_and_def js_shr_def toInt32_def)
  have eq: "n_lfsr (noise_clock x) = js_or (js_shr (n_lfsr x) 1) (js_shl fb 14)"
    using True by (simp add: noise_clock_def Let_def fb_def tap_def)
  show ?thesis
    unfolding lfsr_ok_def eq
    using lfsr_shift [of "n_lfsr x" fb] assms fbb one by (simp add: lfsr_ok_def)
qed

lemma noise_do_lfsr_ok: "lfsr_ok x \<Longrightarrow> lfsr_ok (noise_do a x)"
  by (cases a)
    (simp_all add: noise_clock_lfsr_ok, simp_all add: lfsr_ok_def noise_write0_def
      noise_write2_def noise_write3_def noise_setEnabled_def noise_quarter_def
      noise_half_def Let_def)

lemma noise_run_lfsr_ok: "lfsr_ok x \<Longrightarrow> lfsr_ok (noise_run ops x)"
  by (induction ops arbitrary: x) (simp_all add: noise_do_lfsr_ok)

lemma lfsr_ok_init: "lfsr_ok noise_init"
  by (simp add: lfsr_ok_def noise_init_def)

text \<open>
  C10. The noise channel's shift register starts at 1 and is never 0: after any
  sequence of \<open>clock()\<close> calls, register writes (mode and period among them),
  enables and frame ticks, it is a nonzero 15-bit value.
\<close>

theorem lfsr_never_zero:
  "n_lfsr (noise_run ops noise_init) \<noteq> 0 \<and>
   0 < n_lfsr (noise_run ops noise_init) \<and> n_lfsr (noise_run ops noise_init) < 2 ^ 15"
  using noise_run_lfsr_ok [OF lfsr_ok_init, of ops] by (simp add: lfsr_ok_def)

section \<open>Properties of the mixer\<close>

lemma pulseTerm_bound:
  fixes n :: real
  assumes "1 \<le> n" "n \<le> 30"
  shows "0 \<le> 95.88 / (8128 / n + 100)" "95.88 / (8128 / n + 100) \<le> (2584832 / 10000000)"
proof -
  have a: "8128 / 30 \<le> 8128 / n"
    using assms by (intro divide_left_mono) auto
  then have d: "8128 / 30 + 100 \<le> 8128 / n + 100" by simp
  have dpos: "0 < 8128 / n + 100" using d by simp
  show "0 \<le> 95.88 / (8128 / n + 100)" using dpos by simp
  have "95.88 / (8128 / n + 100) \<le> 95.88 / (8128 / 30 + 100)"
    using d dpos by (intro divide_left_mono) auto
  also have "\<dots> \<le> (2584832 / 10000000)" by simp
  finally show "95.88 / (8128 / n + 100) \<le> (2584832 / 10000000)" .
qed

lemma tndTerm_bound:
  fixes t :: real
  assumes "0 < t" "t \<le> 15 / 8227 + 15 / 12241 + 127 / 22638"
  shows "0 \<le> 159.79 / (1 / t + 100)" "159.79 / (1 / t + 100) \<le> (7415163 / 10000000)"
    "1 / t + 100 \<noteq> 0"
proof -
  let ?T = "15 / 8227 + 15 / 12241 + 127 / 22638 :: real"
  have a: "1 / ?T \<le> 1 / t"
    using assms by (intro divide_left_mono) auto
  then have d: "1 / ?T + 100 \<le> 1 / t + 100" by simp
  have dpos: "0 < 1 / t + 100" using assms(1) by (simp add: add_pos_pos)
  show "1 / t + 100 \<noteq> 0" using dpos by simp
  show "0 \<le> 159.79 / (1 / t + 100)" using dpos by simp
  have "159.79 / (1 / t + 100) \<le> 159.79 / (1 / ?T + 100)"
    using d dpos by (intro divide_left_mono) auto
  also have "\<dots> \<le> (7415163 / 10000000)" by simp
  finally show "159.79 / (1 / t + 100) \<le> (7415163 / 10000000)" .
qed

lemma clamp01_range: "v \<noteq> NaN \<Longrightarrow> \<exists>m. clamp01 v = Num m \<and> 0 \<le> m \<and> m \<le> 1"
  by (cases v) (simp_all add: clamp01_def)

lemma clamp01_NaN: "clamp01 NaN = NaN"
  by (simp add: clamp01_def)

lemma mix_sample_range:
  assumes p1: "0 \<le> p1" "p1 \<le> 15" and p2: "0 \<le> p2" "p2 \<le> 15"
    and tr: "0 \<le> tr" "tr \<le> 15" and noi: "0 \<le> noi" "noi \<le> 15"
    and dmc: "0 \<le> dmc" "dmc \<le> 127" and m: "0 \<le> m" "m \<le> 1"
  shows "\<exists>x. mix_sample p1 p2 (Some tr) noi dmc (Num m) = Some x \<and> - 1 \<le> x \<and> x \<le> 1 \<and>
    x \<le> 999999 / 1000000"
proof -
  define pulseTerm :: real where
    "pulseTerm = (if p1 \<noteq> 0 \<or> p2 \<noteq> 0
             then (if p1 + p2 = 0 then 0
                   else 95.88 / ((8128 / real_of_int (p1 + p2)) + 100))
             else 0)"
  define tnd :: real where
    "tnd = (real_of_int tr / 8227) + (real_of_int noi / 12241) + (real_of_int dmc / 22638)"
  define td :: real where "td = (if tnd \<noteq> 0 then 159.79 / ((1 / tnd) + 100) else 0)"
  have pb: "0 \<le> pulseTerm \<and> pulseTerm \<le> (2584832 / 10000000)"
  proof (cases "p1 + p2 = 0")
    case True
    then show ?thesis by (simp add: pulseTerm_def)
  next
    case False
    then have "1 \<le> real_of_int (p1 + p2)" "real_of_int (p1 + p2) \<le> 30"
      using p1 p2 by linarith+
    from pulseTerm_bound [OF this] show ?thesis
      using False by (simp add: pulseTerm_def)
  qed
  have t0: "0 \<le> tnd" unfolding tnd_def using tr noi dmc by simp
  have t1: "tnd \<le> 15 / 8227 + 15 / 12241 + 127 / 22638"
  proof -
    have "real_of_int tr / 8227 \<le> 15 / 8227" using tr by simp
    moreover have "real_of_int noi / 12241 \<le> 15 / 12241" using noi by simp
    moreover have "real_of_int dmc / 22638 \<le> 127 / 22638" using dmc by simp
    ultimately show ?thesis unfolding tnd_def by linarith
  qed
  have tb: "0 \<le> td \<and> td \<le> (7415163 / 10000000) \<and> (tnd \<noteq> 0 \<longrightarrow> 1 / tnd + 100 \<noteq> 0)"
  proof (cases "tnd = 0")
    case True
    then show ?thesis by (simp add: td_def)
  next
    case False
    then have "0 < tnd" using t0 by simp
    from tndTerm_bound [OF this t1] show ?thesis using False by (simp add: td_def)
  qed
  have eq: "mix_sample p1 p2 (Some tr) noi dmc (Num m) = Some ((pulseTerm + td) * m * 2 - 1)"
    using tb by (simp add: mix_sample_def Let_def pulseTerm_def tnd_def td_def)
  have s0: "0 \<le> pulseTerm + td" and s1: "pulseTerm + td \<le> 9999995 / 10000000"
    using pb tb by linarith+
  have "0 \<le> (pulseTerm + td) * m" using s0 m by simp
  moreover have "(pulseTerm + td) * m \<le> 9999995 / 10000000 * 1"
    using s0 s1 m by (intro mult_mono) auto
  ultimately show ?thesis unfolding eq by simp
qed

lemma mix_sample_formula:
  assumes p1: "0 \<le> p1" and p2: "0 \<le> p2"
    and tr: "0 \<le> tr" and noi: "0 \<le> noi" and dmc: "0 \<le> dmc"
  shows "mix_sample p1 p2 (Some tr) noi dmc (Num m) =
     Some (((if p1 \<noteq> 0 \<or> p2 \<noteq> 0 then 95.88 / (8128 / real_of_int (p1 + p2) + 100) else 0)
            + (let tnd = real_of_int tr / 8227 + real_of_int noi / 12241 + real_of_int dmc / 22638
               in if tnd \<noteq> 0 then 159.79 / (1 / tnd + 100) else 0)) * m * 2 - 1)"
proof -
  define tnd :: real where
    "tnd = real_of_int tr / 8227 + real_of_int noi / 12241 + real_of_int dmc / 22638"
  have "0 \<le> tnd" unfolding tnd_def using tr noi dmc by simp
  then have "0 \<le> 1 / tnd" by simp
  then have nz: "1 / tnd + 100 \<noteq> 0" by linarith
  have z: "p1 + p2 = 0 \<longleftrightarrow> \<not> (p1 \<noteq> 0 \<or> p2 \<noteq> 0)" using p1 p2 by auto
  show ?thesis
    using nz z unfolding mix_sample_def Let_def tnd_def by (simp split: if_splits)
qed

lemma mix_sample_rounded_id: "mix_sample_rounded (\<lambda>x. x) = mix_sample"
  by (intro ext) (simp add: mix_sample_rounded_def mix_sample_def)

lemma rounding_id: "rounding (\<lambda>x. x)"
  by (simp add: rounding_def)

lemma rnd_mono: "rounding rnd \<Longrightarrow> x \<le> y \<Longrightarrow> rnd x \<le> rnd y"
  by (simp add: rounding_def)

lemma rnd_exact:
  "rounding rnd \<Longrightarrow> \<bar>k\<bar> \<le> 9007199254740992 \<Longrightarrow>
     rnd (real_of_int k / 1073741824) = real_of_int k / 1073741824"
  by (simp add: rounding_def)

lemma rnd_le:
  assumes "rounding rnd" "x \<le> real_of_int k / 1073741824" "\<bar>k\<bar> \<le> 9007199254740992"
  shows "rnd x \<le> real_of_int k / 1073741824"
  using rnd_mono [OF assms(1,2)] rnd_exact [OF assms(1,3)] by simp

lemma rnd_ge:
  assumes "rounding rnd" "real_of_int k / 1073741824 \<le> x" "\<bar>k\<bar> \<le> 9007199254740992"
  shows "real_of_int k / 1073741824 \<le> rnd x"
  using rnd_mono [OF assms(1,2)] rnd_exact [OF assms(1,3)] by simp

lemma rnd_ints:
  assumes "rounding rnd"
  shows "rnd 0 = 0" "rnd 1 = 1" "rnd (- 1) = - 1" "rnd 2 = 2"
  using rnd_exact [OF assms, of 0] rnd_exact [OF assms, of 1073741824]
    rnd_exact [OF assms, of "- 1073741824"] rnd_exact [OF assms, of 2147483648]
  by simp_all

lemma rnd_nonneg: "rounding rnd \<Longrightarrow> 0 \<le> x \<Longrightarrow> 0 \<le> rnd x"
  using rnd_ge [of rnd 0 x] by simp

lemma pulseTerm_rounded:
  fixes n :: real
  assumes r: "rounding rnd" and n: "1 \<le> n" "n \<le> 30"
  shows "0 \<le> rnd (rnd 95.88 / rnd (rnd (8128 / n) + 100))"
    and "rnd (rnd 95.88 / rnd (rnd (8128 / n) + 100)) \<le> 277544122 / 1073741824"
proof -
  have "290912451515 / 1073741824 \<le> 8128 / (30::real)" by simp
  also have "\<dots> \<le> 8128 / n" using n by (intro divide_left_mono) auto
  finally have a: "290912451515 / 1073741824 \<le> rnd (8128 / n)"
    using rnd_ge [OF r, of 290912451515 "8128 / n"] by simp
  then have "398286633915 / 1073741824 \<le> rnd (8128 / n) + 100" by simp
  then have b: "398286633915 / 1073741824 \<le> rnd (rnd (8128 / n) + 100)"
    using rnd_ge [OF r, of 398286633915 "rnd (8128 / n) + 100"] by simp
  then have bpos: "0 < rnd (rnd (8128 / n) + 100)" by simp
  have c0: "0 \<le> rnd 95.88" using rnd_nonneg [OF r, of "95.88"] by simp
  have c1: "rnd 95.88 \<le> 102950366086 / 1073741824"
    using rnd_le [OF r, of "95.88" 102950366086] by simp
  show "0 \<le> rnd (rnd 95.88 / rnd (rnd (8128 / n) + 100))"
    using c0 bpos by (intro rnd_nonneg [OF r]) simp
  have "rnd 95.88 / rnd (rnd (8128 / n) + 100)
      \<le> (102950366086 / 1073741824) / (398286633915 / 1073741824)"
    using c0 c1 b bpos by (intro frac_le) auto
  also have "\<dots> \<le> 277544122 / 1073741824" by simp
  finally show "rnd (rnd 95.88 / rnd (rnd (8128 / n) + 100)) \<le> 277544122 / 1073741824"
    using rnd_le [OF r, of _ 277544122] by simp
qed

lemma tnd_rounded:
  assumes r: "rounding rnd"
    and tr: "0 \<le> tr" "tr \<le> 15" and noi: "0 \<le> noi" "noi \<le> 15"
    and dmc: "0 \<le> dmc" "dmc \<le> 127"
  shows "0 \<le> rnd (rnd (rnd (real_of_int tr / 8227) + rnd (real_of_int noi / 12241))
                   + rnd (real_of_int dmc / 22638))"
    and "rnd (rnd (rnd (real_of_int tr / 8227) + rnd (real_of_int noi / 12241))
                   + rnd (real_of_int dmc / 22638)) \<le> 9297200 / 1073741824"
proof -
  let ?t1 = "rnd (real_of_int tr / 8227)"
  let ?t2 = "rnd (real_of_int noi / 12241)"
  let ?t3 = "rnd (real_of_int dmc / 22638)"
  have p: "0 \<le> ?t1" "0 \<le> ?t2" "0 \<le> ?t3"
    using tr noi dmc by (simp_all add: rnd_nonneg [OF r])
  have "real_of_int tr / 8227 \<le> 15 / 8227" using tr by simp
  then have u1: "?t1 \<le> 1957716 / 1073741824"
    using rnd_le [OF r, of "real_of_int tr / 8227" 1957716] by simp
  have "real_of_int noi / 12241 \<le> 15 / 12241" using noi by simp
  then have u2: "?t2 \<le> 1315753 / 1073741824"
    using rnd_le [OF r, of "real_of_int noi / 12241" 1315753] by simp
  have "real_of_int dmc / 22638 \<le> 127 / 22638" using dmc by simp
  then have u3: "?t3 \<le> 6023731 / 1073741824"
    using rnd_le [OF r, of "real_of_int dmc / 22638" 6023731] by simp
  have s0: "0 \<le> rnd (?t1 + ?t2)" using p by (simp add: rnd_nonneg [OF r])
  have "?t1 + ?t2 \<le> 3273469 / 1073741824" using u1 u2 by simp
  then have s1: "rnd (?t1 + ?t2) \<le> 3273469 / 1073741824"
    using rnd_le [OF r, of "?t1 + ?t2" 3273469] by simp
  show "0 \<le> rnd (rnd (?t1 + ?t2) + ?t3)" using s0 p by (simp add: rnd_nonneg [OF r])
  have "rnd (?t1 + ?t2) + ?t3 \<le> 9297200 / 1073741824" using s1 u3 by simp
  then show "rnd (rnd (?t1 + ?t2) + ?t3) \<le> 9297200 / 1073741824"
    using rnd_le [OF r, of "rnd (?t1 + ?t2) + ?t3" 9297200] by simp
qed

lemma tndTerm_rounded:
  fixes t :: real
  assumes r: "rounding rnd" and t: "0 < t" "t \<le> 9297200 / 1073741824"
  shows "rnd (rnd (1 / t) + 100) \<noteq> 0"
    and "0 \<le> rnd (rnd 159.79 / rnd (rnd (1 / t) + 100))"
    and "rnd (rnd 159.79 / rnd (rnd (1 / t) + 100)) \<le> 796197059 / 1073741824"
proof -
  have "124007389817 / 1073741824 \<le> 1 / (9297200 / 1073741824 :: real)" by simp
  also have "\<dots> \<le> 1 / t" using t by (intro divide_left_mono) auto
  finally have a: "124007389817 / 1073741824 \<le> rnd (1 / t)"
    using rnd_ge [OF r, of 124007389817 "1 / t"] by simp
  then have "231381572217 / 1073741824 \<le> rnd (1 / t) + 100" by simp
  then have b: "231381572217 / 1073741824 \<le> rnd (rnd (1 / t) + 100)"
    using rnd_ge [OF r, of 231381572217 "rnd (1 / t) + 100"] by simp
  then have bpos: "0 < rnd (rnd (1 / t) + 100)" by simp
  then show "rnd (rnd (1 / t) + 100) \<noteq> 0" by simp
  have c0: "0 \<le> rnd 159.79" using rnd_nonneg [OF r, of "159.79"] by simp
  have c1: "rnd 159.79 \<le> 171573206057 / 1073741824"
    using rnd_le [OF r, of "159.79" 171573206057] by simp
  show "0 \<le> rnd (rnd 159.79 / rnd (rnd (1 / t) + 100))"
    using c0 bpos by (intro rnd_nonneg [OF r]) simp
  have "rnd 159.79 / rnd (rnd (1 / t) + 100)
      \<le> (171573206057 / 1073741824) / (231381572217 / 1073741824)"
    using c0 c1 b bpos by (intro frac_le) auto
  also have "\<dots> \<le> 796197059 / 1073741824" by simp
  finally show "rnd (rnd 159.79 / rnd (rnd (1 / t) + 100)) \<le> 796197059 / 1073741824"
    using rnd_le [OF r, of _ 796197059] by simp
qed

lemma mix_sample_rounded_range:
  assumes r: "rounding rnd"
    and p1: "0 \<le> p1" "p1 \<le> 15" and p2: "0 \<le> p2" "p2 \<le> 15"
    and tr: "0 \<le> tr" "tr \<le> 15" and noi: "0 \<le> noi" "noi \<le> 15"
    and dmc: "0 \<le> dmc" "dmc \<le> 127" and m: "0 \<le> m" "m \<le> 1"
  shows "\<exists>x. mix_sample_rounded rnd p1 p2 (Some tr) noi dmc (Num m) = Some x \<and>
    - 1 \<le> x \<and> x \<le> 1"
proof -
  define pulseTerm :: real where
    "pulseTerm = (if p1 \<noteq> 0 \<or> p2 \<noteq> 0
             then (if p1 + p2 = 0 then 0
                   else rnd (rnd 95.88 / rnd (rnd (8128 / real_of_int (p1 + p2)) + 100)))
             else 0)"
  define tnd :: real where
    "tnd = rnd (rnd (rnd (real_of_int tr / 8227) + rnd (real_of_int noi / 12241))
                + rnd (real_of_int dmc / 22638))"
  define td :: real where
    "td = (if tnd \<noteq> 0 then rnd (rnd 159.79 / rnd (rnd (1 / tnd) + 100)) else 0)"
  have pb: "0 \<le> pulseTerm \<and> pulseTerm \<le> 277544122 / 1073741824"
  proof (cases "p1 + p2 = 0")
    case True
    then show ?thesis by (simp add: pulseTerm_def)
  next
    case False
    then have "1 \<le> real_of_int (p1 + p2)" "real_of_int (p1 + p2) \<le> 30"
      using p1 p2 by linarith+
    from pulseTerm_rounded [OF r this] show ?thesis
      using False by (simp add: pulseTerm_def)
  qed
  have t0: "0 \<le> tnd" and t1: "tnd \<le> 9297200 / 1073741824"
    unfolding tnd_def using tnd_rounded [OF r tr noi dmc] by simp_all
  have tb: "0 \<le> td \<and> td \<le> 796197059 / 1073741824 \<and>
      (tnd \<noteq> 0 \<longrightarrow> rnd (rnd (1 / tnd) + 100) \<noteq> 0)"
  proof (cases "tnd = 0")
    case True
    then show ?thesis by (simp add: td_def)
  next
    case False
    then have "0 < tnd" using t0 by simp
    from tndTerm_rounded [OF r this t1] show ?thesis using False by (simp add: td_def)
  qed
  define su where "su = rnd (pulseTerm + td)"
  define mixed where "mixed = rnd (su * m)"
  have eq: "mix_sample_rounded rnd p1 p2 (Some tr) noi dmc (Num m)
      = Some (rnd (rnd (mixed * 2) - 1))"
    using tb
    by (simp add: mix_sample_rounded_def Let_def pulseTerm_def tnd_def td_def su_def mixed_def)
  have "0 \<le> pulseTerm + td" "pulseTerm + td \<le> 1" using pb tb by linarith+
  then have su: "0 \<le> su" "su \<le> 1"
    unfolding su_def using rnd_mono [OF r, of "pulseTerm + td" 1] rnd_ints [OF r]
    by (simp_all add: rnd_nonneg [OF r])
  have "0 \<le> su * m" using su m by simp
  moreover have "su * m \<le> 1 * 1" using su m by (intro mult_mono) auto
  ultimately have mi: "0 \<le> mixed" "mixed \<le> 1"
    unfolding mixed_def using rnd_mono [OF r, of "su * m" 1] rnd_ints [OF r]
    by (simp_all add: rnd_nonneg [OF r])
  have "0 \<le> mixed * 2" "mixed * 2 \<le> 2" using mi by simp_all
  then have d: "0 \<le> rnd (mixed * 2)" "rnd (mixed * 2) \<le> 2"
    using rnd_mono [OF r, of "mixed * 2" 2] rnd_ints [OF r]
    by (simp_all add: rnd_nonneg [OF r])
  have "- 1 \<le> rnd (mixed * 2) - 1" "rnd (mixed * 2) - 1 \<le> 1" using d by simp_all
  then have "- 1 \<le> rnd (rnd (mixed * 2) - 1)" "rnd (rnd (mixed * 2) - 1) \<le> 1"
    using rnd_mono [OF r, of "- 1" "rnd (mixed * 2) - 1"]
      rnd_mono [OF r, of "rnd (mixed * 2) - 1" 1] rnd_ints [OF r]
    by simp_all
  then show ?thesis unfolding eq by simp
qed

lemmas channel_defs =
  envelope_init_def envelope_write_def envelope_restart_def envelope_quarter_def
  envelope_out_def length_init_def length_load_def length_half_def length_zero_def
  sweep_init_def sweep_write_def sweep_target_def sweep_half_def
  pulse_init_def pulse_write0_def pulse_write1_def pulse_write2_def pulse_write3_def
  pulse_setEnabled_def pulse_quarter_def pulse_half_def pulse_clock_def pulse_out_def
  triangle_init_def triangle_write0_def triangle_write2_def triangle_write3_def
  triangle_setEnabled_def triangle_quarter_def triangle_half_def triangle_clock_def
  triangle_out_def
  noise_init_def noise_write0_def noise_write2_def noise_write3_def noise_setEnabled_def
  noise_quarter_def noise_half_def noise_clock_def noise_out_def
  dmc_init_def dmc_write0_def dmc_write1_def dmc_write2_def dmc_write3_def
  dmc_setEnabled_def dmc_refillBufferIfNeeded_def dmc_clock_def dmc_out_def
  dmc_statusActiveBit_def

lemmas apu_defs =
  apu_init_def apu_updateIRQLine_def apu_clockQuarter_def apu_clockQuarterHalf_def
  apu_write_def apu_read_def apu_setVolume_def

lemmas table_defs = LENGTH_TABLE_def NOISE_PERIODS_def DMC_RATES_def DUTY_def TRI_def

lemma loud_outputs:
  "pulse_out (a_pulse1 loud) = Inr 15" "pulse_out (a_pulse2 loud) = Inr 15"
  "triangle_out (a_triangle loud) = Some 15" "noise_out (a_noise loud) = 0"
  "dmc_out (a_dmc loud) = 127"
  by (simp_all add: loud_def apu_defs channel_defs js_defs table_defs Let_def)

text \<open>
  C9, as claimed: for any master volume set through \<open>setVolume\<close> the sample is
  within \<open>[-1, 1]\<close>. It fails for the volume NaN: \<open>clamp01\<close> returns NaN, which
  becomes \<open>master\<close>, and with all five channel outputs in their ranges (here 15, 15,
  15, 0 and 127) \<open>_mix\<close> returns no number in \<open>[-1, 1]\<close> but NaN (\<open>None\<close>).
\<close>

theorem mixer_nan_counterexample:
  "clamp01 NaN = NaN \<and> a_master (apu_setVolume NaN loud) = NaN \<and>
   pulse_out (a_pulse1 loud) = Inr 15 \<and> pulse_out (a_pulse2 loud) = Inr 15 \<and>
   triangle_out (a_triangle loud) = Some 15 \<and> noise_out (a_noise loud) = 0 \<and>
   dmc_out (a_dmc loud) = 127 \<and>
   apu_mix (apu_setVolume NaN loud) = Inr None"
  using loud_outputs
  by (simp add: clamp01_def apu_setVolume_def apu_mix_def mix_sample_def Let_def)

text \<open>
  C9, amended. Whenever the five channel outputs are in their ranges (pulses, triangle
  and noise in \<open>[0, 15]\<close>, DMC in \<open>[0, 127]\<close>), then for every volume \<open>v\<close> other
  than NaN given to \<open>setVolume\<close>, the infinities among them, \<open>master\<close> is a number
  in \<open>[0, 1]\<close> and \<open>_mix\<close> returns a sample within \<open>[-1, 1]\<close>, and the sample is
  \<open>(pulseOut + tndOut) * master * 2 - 1\<close> with \<open>pulseOut\<close> and \<open>tndOut\<close> as the
  claim gives them. In exact arithmetic the sample stays \<open>10\<^sup>-\<^sup>6\<close> below 1; and
  with every operation rounded, by any rounding that is monotone and exact on the
  doubles named by \<open>rounding\<close>, and so by \<open>to_double\<close>, as the code computes it,
  the sample is still within \<open>[-1, 1]\<close>.
\<close>

theorem mixer_output_range:
  assumes "pulse_out (a_pulse1 s) = Inr p1" "0 \<le> p1" "p1 \<le> 15"
    and "pulse_out (a_pulse2 s) = Inr p2" "0 \<le> p2" "p2 \<le> 15"
    and "triangle_out (a_triangle s) = Some tr" "0 \<le> tr" "tr \<le> 15"
    and "0 \<le> noise_out (a_noise s)" "noise_out (a_noise s) \<le> 15"
    and "0 \<le> dmc_out (a_dmc s)" "dmc_out (a_dmc s) \<le> 127"
    and "v \<noteq> NaN"
  shows "(\<exists>m x. a_master (apu_setVolume v s) = Num m \<and> 0 \<le> m \<and> m \<le> 1 \<and>
     apu_mix (apu_setVolume v s) = Inr (Some x) \<and> - 1 \<le> x \<and> x \<le> 1 \<and>
     x \<le> 999999 / 1000000 \<and>
     x = ((if p1 \<noteq> 0 \<or> p2 \<noteq> 0 then 95.88 / (8128 / real_of_int (p1 + p2) + 100) else 0)
          + (let tnd = real_of_int tr / 8227 + real_of_int (noise_out (a_noise s)) / 12241
                       + real_of_int (dmc_out (a_dmc s)) / 22638
             in if tnd \<noteq> 0 then 159.79 / (1 / tnd + 100) else 0))
         * m * 2 - 1) \<and>
    (rounding rnd \<longrightarrow>
       (\<exists>y. apu_mix_rounded rnd (apu_setVolume v s) = Inr (Some y) \<and> - 1 \<le> y \<and> y \<le> 1)) \<and>
    (\<exists>y. apu_mix_rounded to_double (apu_setVolume v s) = Inr (Some y) \<and> - 1 \<le> y \<and> y \<le> 1)"
proof (intro conjI impI)
  obtain m where m: "clamp01 v = Num m" "0 \<le> m" "m \<le> 1"
    using clamp01_range [OF assms(14)] by blast
  have eq: "apu_mix (apu_setVolume v s) =
      Inr (mix_sample p1 p2 (Some tr) (noise_out (a_noise s)) (dmc_out (a_dmc s)) (Num m))"
    using assms m by (simp add: apu_mix_def apu_setVolume_def)
  from mix_sample_range [OF assms(2,3) assms(5,6) assms(8,9) assms(10,11) assms(12,13) m(2,3)]
  obtain x where x: "mix_sample p1 p2 (Some tr) (noise_out (a_noise s)) (dmc_out (a_dmc s))
      (Num m) = Some x" "- 1 \<le> x" "x \<le> 1" "x \<le> 999999 / 1000000" by blast
  have "Some x = Some (((if p1 \<noteq> 0 \<or> p2 \<noteq> 0 then 95.88 / (8128 / real_of_int (p1 + p2) + 100) else 0)
          + (let tnd = real_of_int tr / 8227 + real_of_int (noise_out (a_noise s)) / 12241
                       + real_of_int (dmc_out (a_dmc s)) / 22638
             in if tnd \<noteq> 0 then 159.79 / (1 / tnd + 100) else 0))
         * m * 2 - 1)"
    using mix_sample_formula [OF assms(2) assms(5) assms(8) assms(10) assms(12), of m] x(1)
    by simp
  then show "\<exists>m x. a_master (apu_setVolume v s) = Num m \<and> 0 \<le> m \<and> m \<le> 1 \<and>
     apu_mix (apu_setVolume v s) = Inr (Some x) \<and> - 1 \<le> x \<and> x \<le> 1 \<and>
     x \<le> 999999 / 1000000 \<and>
     x = ((if p1 \<noteq> 0 \<or> p2 \<noteq> 0 then 95.88 / (8128 / real_of_int (p1 + p2) + 100) else 0)
          + (let tnd = real_of_int tr / 8227 + real_of_int (noise_out (a_noise s)) / 12241
                       + real_of_int (dmc_out (a_dmc s)) / 22638
             in if tnd \<noteq> 0 then 159.79 / (1 / tnd + 100) else 0))
         * m * 2 - 1"
    using eq x m by (simp add: apu_setVolume_def)
next
  assume r: "rounding rnd"
  obtain m where m: "clamp01 v = Num m" "0 \<le> m" "m \<le> 1"
    using clamp01_range [OF assms(14)] by blast
  have eq: "apu_mix_rounded rnd (apu_setVolume v s) =
      Inr (mix_sample_rounded rnd p1 p2 (Some tr) (noise_out (a_noise s)) (dmc_out (a_dmc s))
             (Num m))"
    using assms m by (simp add: apu_mix_rounded_def apu_setVolume_def)
  from mix_sample_rounded_range
    [OF r assms(2,3) assms(5,6) assms(8,9) assms(10,11) assms(12,13) m(2,3)]
  show "\<exists>y. apu_mix_rounded rnd (apu_setVolume v s) = Inr (Some y) \<and> - 1 \<le> y \<and> y \<le> 1"
    unfolding eq by simp
next
  obtain m where m: "clamp01 v = Num m" "0 \<le> m" "m \<le> 1"
    using clamp01_range [OF assms(14)] by blast
  have eq: "apu_mix_rounded to_double (apu_setVolume v s) =
      Inr (mix_sample_rounded to_double p1 p2 (Some tr) (noise_out (a_noise s))
             (dmc_out (a_dmc s)) (Num m))"
    using assms m by (simp add: apu_mix_rounded_def apu_setVolume_def)
  from mix_sample_rounded_range
    [OF rounding_to_double assms(2,3) assms(5,6) assms(8,9) assms(10,11) assms(12,13) m(2,3)]
  show "\<exists>y. apu_mix_rounded to_double (apu_setVolume v s) = Inr (Some y) \<and>
      - 1 \<le> y \<and> y \<le> 1"
    unfolding eq by simp
qed

lemma loud_sample:
  "apu_mix_rounded to_double (apu_setVolume (Num 2) loud)
     = Inr (Some (495175251285299 / 562949953421312))"
  by code_simp

theorem mixer_output_range_witness:
  "pulse_out (a_pulse1 loud) = Inr 15 \<and> pulse_out (a_pulse2 loud) = Inr 15 \<and>
   triangle_out (a_triangle loud) = Some 15 \<and> noise_out (a_noise loud) = 0 \<and>
   dmc_out (a_dmc loud) = 127 \<and> Num 2 \<noteq> NaN \<and> PosInf \<noteq> NaN \<and>
   a_master (apu_setVolume (Num 2) loud) = Num 1 \<and>
   a_master (apu_setVolume PosInf loud) = Num 1 \<and>
   (\<exists>x. apu_mix (apu_setVolume (Num 2) loud) = Inr (Some x) \<and> - 1 \<le> x \<and> x \<le> 1) \<and>
   (\<exists>x. apu_mix (apu_setVolume PosInf loud) = Inr (Some x) \<and> - 1 \<le> x \<and> x \<le> 1) \<and>
   rounding (\<lambda>x. x) \<and>
   (\<exists>y. apu_mix_rounded (\<lambda>x. x) (apu_setVolume (Num 2) loud) = Inr (Some y) \<and>
        - 1 \<le> y \<and> y \<le> 1) \<and>
   apu_mix_rounded to_double (apu_setVolume (Num 2) loud)
     = Inr (Some (495175251285299 / 562949953421312))"
proof -
  have m: "a_master (apu_setVolume (Num 2) loud) = Num 1"
    "a_master (apu_setVolume PosInf loud) = Num 1"
    by (simp_all add: apu_setVolume_def clamp01_def)
  have 1: "(\<exists>x. apu_mix (apu_setVolume (Num 2) loud) = Inr (Some x) \<and> - 1 \<le> x \<and> x \<le> 1) \<and>
      (\<exists>y. apu_mix_rounded (\<lambda>x. x) (apu_setVolume (Num 2) loud) = Inr (Some y) \<and>
        - 1 \<le> y \<and> y \<le> 1)"
    using mixer_output_range [where s = loud and ?p1.0 = 15 and ?p2.0 = 15 and tr = 15
      and v = "Num 2" and rnd = "\<lambda>x. x"] loud_outputs rounding_id
    by auto
  have 2: "\<exists>x. apu_mix (apu_setVolume PosInf loud) = Inr (Some x) \<and> - 1 \<le> x \<and> x \<le> 1"
    using mixer_output_range [where s = loud and ?p1.0 = 15 and ?p2.0 = 15 and tr = 15
      and v = PosInf and rnd = "\<lambda>x. x"] loud_outputs
    by auto
  show ?thesis using m 1 2 loud_outputs rounding_id loud_sample by simp
qed

section \<open>Properties of the frame sequencer\<close>

lemma seq_fields_clockQuarter [simp]:
  "a_phase (apu_clockQuarter s) = a_phase s" "a_seqTime (apu_clockQuarter s) = a_seqTime s"
  "a_mode5 (apu_clockQuarter s) = a_mode5 s" "a_irqInhibit (apu_clockQuarter s) = a_irqInhibit s"
  "a_frameIRQ (apu_clockQuarter s) = a_frameIRQ s"
  "a_quarters (apu_clockQuarter s) = a_quarters s + 1"
  "a_halves (apu_clockQuarter s) = a_halves s" "a_wraps (apu_clockQuarter s) = a_wraps s"
  by (simp_all add: apu_clockQuarter_def)

lemma seq_fields_clockQuarterHalf [simp]:
  "a_phase (apu_clockQuarterHalf s) = a_phase s"
  "a_seqTime (apu_clockQuarterHalf s) = a_seqTime s"
  "a_mode5 (apu_clockQuarterHalf s) = a_mode5 s"
  "a_irqInhibit (apu_clockQuarterHalf s) = a_irqInhibit s"
  "a_frameIRQ (apu_clockQuarterHalf s) = a_frameIRQ s"
  "a_quarters (apu_clockQuarterHalf s) = a_quarters s + 1"
  "a_halves (apu_clockQuarterHalf s) = a_halves s + 1"
  "a_wraps (apu_clockQuarterHalf s) = a_wraps s"
  by (simp_all add: apu_clockQuarterHalf_def Let_def)

lemma seq_fields_updateIRQLine [simp]:
  "a_phase (apu_updateIRQLine s) = a_phase s" "a_seqTime (apu_updateIRQLine s) = a_seqTime s"
  "a_mode5 (apu_updateIRQLine s) = a_mode5 s"
  "a_irqInhibit (apu_updateIRQLine s) = a_irqInhibit s"
  "a_frameIRQ (apu_updateIRQLine s) = a_frameIRQ s"
  "a_quarters (apu_updateIRQLine s) = a_quarters s"
  "a_halves (apu_updateIRQLine s) = a_halves s" "a_wraps (apu_updateIRQLine s) = a_wraps s"
  by (simp_all add: apu_updateIRQLine_def)

lemma seq_fields_sequencer: "seq_fields (apu_sequencer s) = seq_next (seq_fields s)"
proof -
  define s1 where "s1 = s\<lparr>a_seqTime := to_double (a_seqTime s + 1)\<rparr>"
  define t where "t = a_seqTime s1"
  define s2 where "s2 = (if a_phase s1 = None \<or> a_phase s1 = Some 0 then s1\<lparr>a_phase := Some 0\<rparr>
                else s1)"
  define s3 where "s3 = (if a_phase s2 = Some 0 \<and> t \<ge> to_double (qPeriod * 1)
                then (apu_clockQuarter s2)\<lparr>a_phase := Some 1\<rparr> else s2)"
  define s4 where "s4 = (if a_phase s3 = Some 1 \<and> t \<ge> to_double (qPeriod * 2)
                then (apu_clockQuarterHalf s3)\<lparr>a_phase := Some 2\<rparr> else s3)"
  define s5 where "s5 = (if a_phase s4 = Some 2 \<and> t \<ge> to_double (qPeriod * 3)
                then (apu_clockQuarter s4)\<lparr>a_phase := Some 3\<rparr> else s4)"
  define s9 where "s9 =
      (if a_phase s5 = Some 3 \<and> t \<ge> to_double (qPeriod * 4) then
           (let s6 = apu_clockQuarterHalf s5;
                s7 = (if \<not> a_mode5 s6 \<and> \<not> a_irqInhibit s6 then s6\<lparr>a_frameIRQ := True\<rparr>
                      else s6);
                s8 = apu_updateIRQLine s7
            in s8\<lparr>a_seqTime := to_double (a_seqTime s8 - to_double (qPeriod * 4)),
                  a_phase := Some 0, a_wraps := a_wraps s8 + 1\<rparr>)
         else s5)"
  have r: "apu_sequencer s = s9"
    unfolding apu_sequencer_def Let_def s9_def s5_def s4_def s3_def s2_def t_def s1_def
    by (rule refl)
  have f2: "seq_fields s2 = seq_begin (seq_fields s)"
    by (simp add: s2_def s1_def seq_fields_def seq_begin_def)
  have t2: "a_seqTime s2 = t" by (simp add: s2_def s1_def t_def)
  have f3: "seq_fields s3 = seq_tick 0 (to_double (qPeriod * 1)) 0 (seq_fields s2)"
    using t2 by (simp add: s3_def seq_fields_def seq_tick_def)
  have t3: "a_seqTime s3 = t" using t2 by (simp add: s3_def)
  have f4: "seq_fields s4 = seq_tick 1 (to_double (qPeriod * 2)) 1 (seq_fields s3)"
    using t3 by (simp add: s4_def seq_fields_def seq_tick_def)
  have t4: "a_seqTime s4 = t" using t3 by (simp add: s4_def)
  have f5: "seq_fields s5 = seq_tick 2 (to_double (qPeriod * 3)) 0 (seq_fields s4)"
    using t4 by (simp add: s5_def seq_fields_def seq_tick_def)
  have t5: "a_seqTime s5 = t" using t4 by (simp add: s5_def)
  have f9: "seq_fields s9 = seq_wrap (seq_fields s5)"
    using t5 by (simp add: s9_def seq_fields_def seq_wrap_def Let_def)
  show ?thesis
    unfolding r seq_next_def f9 f5 f4 f3 f2 by (rule refl)
qed

lemmas seq_defs = seq_next_def seq_begin_def seq_tick_def seq_wrap_def

lemma seq_next_None:
  "seq_next (None, r, m5, inh, firq, q, h, w) = seq_next (Some 0, r, m5, inh, firq, q, h, w)"
  by (simp add: seq_next_def seq_begin_def)

lemma seq_next_idle_step:
  assumes "p0 = 0 \<or> p0 = 1 \<or> p0 = 2 \<or> p0 = 3" "seq_grid r" "0 \<le> r" "r + 1 < seqPeriod"
  shows "seq_next (Some (max p0 (phase_at r)), r, m5, inh, firq,
            q + nat (max p0 (phase_at r) - p0),
            h + (if p0 \<le> 1 \<and> 2 \<le> max p0 (phase_at r) then 1 else 0), w)
         = (Some (max p0 (phase_at (r + 1))), r + 1, m5, inh, firq,
            q + nat (max p0 (phase_at (r + 1)) - p0),
            h + (if p0 \<le> 1 \<and> 2 \<le> max p0 (phase_at (r + 1)) then 1 else 0), w)"
proof -
  have e: "to_double (r + 1) = r + 1"
    using count_exact [OF assms(2,3)] assms(4) by simp
  show ?thesis
    using assms(1,3,4)
    apply (elim disjE)
    apply (simp_all add: seq_defs phase_at_def thresholds seqPeriod_value e split: if_splits)
    done
qed

lemma seq_next_wrap_step:
  assumes "seq_grid r" "0 \<le> r" "r < seqPeriod" "seqPeriod \<le> r + 1"
  shows "seq_next (Some 3, r, m5, inh, firq, q, h, w)
         = (Some 0, r + 1 - seqPeriod, m5, inh, firq \<or> (\<not> m5 \<and> \<not> inh), q + 1, h + 1, w + 1)"
proof -
  have e1: "to_double (r + 1) = r + 1" by (rule count_exact [OF assms(1,2,3)])
  have e2: "to_double (r + 1 - seqPeriod) = r + 1 - seqPeriod"
    using assms(3,4) by (intro restart_exact seq_grid_Suc assms(1)) simp_all
  show ?thesis
    using assms(4) by (simp add: seq_defs e1 e2 flip: seqPeriod_def)
qed

lemma seq_next_run:
  assumes "p0 = 0 \<or> p0 = 1 \<or> p0 = 2 \<or> p0 = 3" "phase_at r \<le> p0"
    "seq_grid r" "0 \<le> r" "r + real n < seqPeriod"
  shows "(seq_next ^^ n) (Some p0, r, m5, inh, firq, q, h, w) =
         (Some (max p0 (phase_at (r + real n))), r + real n, m5, inh, firq,
          q + nat (max p0 (phase_at (r + real n)) - p0),
          h + (if p0 \<le> 1 \<and> 2 \<le> max p0 (phase_at (r + real n)) then 1 else 0), w)"
  using assms(5)
proof (induction n)
  case 0
  then show ?case using assms(2) by simp
next
  case (Suc n)
  have lt: "r + real n < seqPeriod" using Suc.prems by simp
  have e: "r + real (Suc n) = r + real n + 1" by simp
  have lt1: "r + real n + 1 < seqPeriod" using Suc.prems by simp
  have g: "seq_grid (r + real n)" by (rule seq_grid_add [OF assms(3)])
  have nn: "0 \<le> r + real n" using assms(4) by simp
  have "(seq_next ^^ Suc n) (Some p0, r, m5, inh, firq, q, h, w) =
        seq_next ((seq_next ^^ n) (Some p0, r, m5, inh, firq, q, h, w))" by simp
  also have "\<dots> = seq_next (Some (max p0 (phase_at (r + real n))), r + real n, m5, inh, firq,
          q + nat (max p0 (phase_at (r + real n)) - p0),
          h + (if p0 \<le> 1 \<and> 2 \<le> max p0 (phase_at (r + real n)) then 1 else 0), w)"
    by (simp only: Suc.IH [OF lt])
  also have "\<dots> = (Some (max p0 (phase_at (r + real n + 1))), r + real n + 1, m5, inh, firq,
            q + nat (max p0 (phase_at (r + real n + 1)) - p0),
            h + (if p0 \<le> 1 \<and> 2 \<le> max p0 (phase_at (r + real n + 1)) then 1 else 0), w)"
    by (rule seq_next_idle_step [OF assms(1) g nn lt1])
  finally show ?case unfolding e .
qed

lemma seq_fields_clockChannels: "seq_fields (apu_clockChannels s) = seq_fields s"
  by (simp add: seq_fields_def apu_clockChannels_def)

lemma seq_fields_resample: "apu_resample s = Inr s' \<Longrightarrow> seq_fields s' = seq_fields s"
  by (auto simp: apu_resample_def Let_def seq_fields_def split: if_splits sum.splits)

lemma seq_fields_cycle: "apu_cycle s = Inr s' \<Longrightarrow> seq_fields s' = seq_next (seq_fields s)"
  unfolding apu_cycle_def
  using seq_fields_resample seq_fields_sequencer seq_fields_clockChannels by metis

lemma seq_fields_cycles:
  "apu_cycles n s = Inr s' \<Longrightarrow> seq_fields s' = (seq_next ^^ n) (seq_fields s)"
proof (induction n arbitrary: s)
  case 0
  then show ?case by simp
next
  case (Suc n)
  then obtain s1 where c: "apu_cycle s = Inr s1" and r: "apu_cycles n s1 = Inr s'"
    by (auto split: sum.splits)
  have "seq_fields s' = (seq_next ^^ n) (seq_next (seq_fields s))"
    using Suc.IH [OF r] seq_fields_cycle [OF c] by simp
  then show ?case by (simp add: funpow_swap1)
qed

lemma sequencer_stages:
  assumes "P s"
    and "\<And>s v. P s \<Longrightarrow> P (s\<lparr>a_seqTime := v\<rparr>)" "\<And>s v. P s \<Longrightarrow> P (s\<lparr>a_phase := v\<rparr>)"
    "\<And>s. P s \<Longrightarrow> P (apu_clockQuarter s)" "\<And>s. P s \<Longrightarrow> P (apu_clockQuarterHalf s)"
    "\<And>s v. P s \<Longrightarrow> P (s\<lparr>a_frameIRQ := v\<rparr>)" "\<And>s. P s \<Longrightarrow> P (apu_updateIRQLine s)"
    "\<And>s v. P s \<Longrightarrow> P (s\<lparr>a_wraps := v\<rparr>)"
  shows "P (apu_sequencer s)"
proof -
  define s1 where "s1 = s\<lparr>a_seqTime := to_double (a_seqTime s + 1)\<rparr>"
  define t where "t = a_seqTime s1"
  define s2 where "s2 = (if a_phase s1 = None \<or> a_phase s1 = Some 0 then s1\<lparr>a_phase := Some 0\<rparr>
                else s1)"
  define s3 where "s3 = (if a_phase s2 = Some 0 \<and> t \<ge> to_double (qPeriod * 1)
                then (apu_clockQuarter s2)\<lparr>a_phase := Some 1\<rparr> else s2)"
  define s4 where "s4 = (if a_phase s3 = Some 1 \<and> t \<ge> to_double (qPeriod * 2)
                then (apu_clockQuarterHalf s3)\<lparr>a_phase := Some 2\<rparr> else s3)"
  define s5 where "s5 = (if a_phase s4 = Some 2 \<and> t \<ge> to_double (qPeriod * 3)
                then (apu_clockQuarter s4)\<lparr>a_phase := Some 3\<rparr> else s4)"
  define s9 where "s9 =
      (if a_phase s5 = Some 3 \<and> t \<ge> to_double (qPeriod * 4) then
           (let s6 = apu_clockQuarterHalf s5;
                s7 = (if \<not> a_mode5 s6 \<and> \<not> a_irqInhibit s6 then s6\<lparr>a_frameIRQ := True\<rparr>
                      else s6);
                s8 = apu_updateIRQLine s7
            in s8\<lparr>a_seqTime := to_double (a_seqTime s8 - to_double (qPeriod * 4)),
                  a_phase := Some 0, a_wraps := a_wraps s8 + 1\<rparr>)
         else s5)"
  have r: "apu_sequencer s = s9"
    unfolding apu_sequencer_def Let_def s9_def s5_def s4_def s3_def s2_def t_def s1_def
    by (rule refl)
  have "P s1" unfolding s1_def by (intro assms)
  then have "P s2" unfolding s2_def by (auto intro: assms)
  then have "P s3" unfolding s3_def by (auto intro: assms)
  then have "P s4" unfolding s4_def by (auto intro: assms)
  then have "P s5" unfolding s5_def by (auto intro: assms)
  then have "P s9" unfolding s9_def Let_def by (auto intro!: assms)
  then show ?thesis by (simp add: r)
qed

lemma sequencer_preserves:
  fixes f :: "apu \<Rightarrow> 'a"
  assumes "\<And>s v. f (s\<lparr>a_seqTime := v\<rparr>) = f s" "\<And>s v. f (s\<lparr>a_phase := v\<rparr>) = f s"
    "\<And>s. f (apu_clockQuarter s) = f s" "\<And>s. f (apu_clockQuarterHalf s) = f s"
    "\<And>s v. f (s\<lparr>a_frameIRQ := v\<rparr>) = f s" "\<And>s. f (apu_updateIRQLine s) = f s"
    "\<And>s v. f (s\<lparr>a_wraps := v\<rparr>) = f s"
  shows "f (apu_sequencer s) = f s"
  by (rule sequencer_stages [where P = "\<lambda>x. f x = f s"]) (simp_all add: assms)

lemma p_duty_sweep_half: "p_duty (sweep_half p) = p_duty p"
  by (simp add: sweep_half_def Let_def)

lemma duties_sequencer: "duties (apu_sequencer s) = duties s"
  by (rule sequencer_preserves)
    (simp_all add: duties_def apu_clockQuarter_def apu_clockQuarterHalf_def Let_def
      apu_updateIRQLine_def pulse_quarter_def pulse_half_def p_duty_sweep_half)

lemma duties_clockChannels: "duties (apu_clockChannels s) = duties s"
  by (simp add: duties_def apu_clockChannels_def pulse_clock_def)

lemma duties_resample: "apu_resample s = Inr s' \<Longrightarrow> duties s' = duties s"
  by (auto simp: apu_resample_def Let_def duties_def split: if_splits sum.splits)

lemma duty_ok_duties: "duty_ok s \<longleftrightarrow> 0 \<le> fst (duties s) \<and> fst (duties s) < 4 \<and>
    0 \<le> snd (duties s) \<and> snd (duties s) < 4"
  by (simp add: duty_ok_def duties_def)

lemma pulse_out_ok: "0 \<le> p_duty p \<Longrightarrow> p_duty p < 4 \<Longrightarrow> \<exists>v. pulse_out p = Inr v"
  by (simp add: pulse_out_def js_index_def DUTY_def split: option.splits)

lemma apu_mix_ok: "duty_ok s \<Longrightarrow> \<exists>v. apu_mix s = Inr v"
proof -
  assume "duty_ok s"
  then obtain v1 v2 where "pulse_out (a_pulse1 s) = Inr v1" "pulse_out (a_pulse2 s) = Inr v2"
    using pulse_out_ok unfolding duty_ok_def by metis
  then show ?thesis by (simp add: apu_mix_def)
qed

lemma apu_resample_ok: "duty_ok s \<Longrightarrow> \<exists>s'. apu_resample s = Inr s'"
proof -
  assume ok: "duty_ok s"
  let ?s2 = "s\<lparr>a_sampleTimer := to_double (to_double (a_sampleTimer s + 1) - a_samplePeriod s)\<rparr>"
  have "duty_ok ?s2" using ok by (simp add: duty_ok_def)
  then obtain v where "apu_mix ?s2 = Inr v" using apu_mix_ok by blast
  then show ?thesis by (simp add: apu_resample_def Let_def)
qed

lemma apu_cycle_ok: "duty_ok s \<Longrightarrow> \<exists>s'. apu_cycle s = Inr s' \<and> duty_ok s'"
proof -
  assume ok: "duty_ok s"
  have d: "duties (apu_sequencer (apu_clockChannels s)) = duties s"
    by (simp add: duties_sequencer duties_clockChannels)
  then have "duty_ok (apu_sequencer (apu_clockChannels s))"
    using ok by (simp add: duty_ok_duties)
  then obtain s' where s': "apu_resample (apu_sequencer (apu_clockChannels s)) = Inr s'"
    using apu_resample_ok by blast
  have "duties s' = duties s" using duties_resample [OF s'] d by simp
  then have "duty_ok s'" using ok by (simp add: duty_ok_duties)
  then show ?thesis using s' by (simp add: apu_cycle_def)
qed

lemma apu_cycles_ok: "duty_ok s \<Longrightarrow> \<exists>s'. apu_cycles n s = Inr s' \<and> duty_ok s'"
proof (induction n arbitrary: s)
  case 0
  then show ?case by simp
next
  case (Suc n)
  from apu_cycle_ok [OF Suc.prems] obtain s1 where "apu_cycle s = Inr s1" "duty_ok s1"
    by blast
  then show ?case using Suc.IH [of s1] by simp
qed

lemma seq_state_cases:
  obtains ph t m5 inh firq q h w where "(x :: seq_state) = (ph, t, m5, inh, firq, q, h, w)"
  by (metis surj_pair)

lemma seq_lockstep_next_tuple:
  assumes "seq_lockstep (ph0, t0, m50, inh0, firq0, q0, h0, w0) (ph, t, m5, inh, firq, q, h, w)"
  shows "seq_lockstep (ph0, t0, m50, inh0, firq0, q0, h0, w0)
           (seq_next (ph, t, m5, inh, firq, q, h, w))"
  using assms
  apply (simp add: seq_lockstep_def)
  apply (elim conjE disjE)
  apply (simp_all add: seq_defs)
  apply auto
  done

lemma seq_lockstep_next: "seq_lockstep x0 x \<Longrightarrow> seq_lockstep x0 (seq_next x)"
  by (cases x0 rule: seq_state_cases, cases x rule: seq_state_cases)
    (simp only: seq_lockstep_next_tuple)

lemma seq_lockstep_funpow: "seq_lockstep x0 x \<Longrightarrow> seq_lockstep x0 ((seq_next ^^ n) x)"
  by (induction n) (simp_all add: seq_lockstep_next)

lemma seq_lockstep_start:
  "a_phase s = None \<or> a_phase s = Some 0 \<Longrightarrow> seq_lockstep (seq_fields s) (seq_fields s)"
  by (auto simp: seq_lockstep_def seq_fields_def)

lemma seq_funpow_None:
  "0 < n \<Longrightarrow> (seq_next ^^ n) (None, r, m5, inh, firq, q, h, w)
     = (seq_next ^^ n) (Some 0, r, m5, inh, firq, q, h, w)"
  by (cases n) (simp_all add: funpow_swap1 seq_next_None)

lemma seq_funpow_start:
  assumes "ph = None \<or> ph = Some 0" "0 < n"
  shows "(seq_next ^^ n) (ph, r, m5, inh, firq, q, h, w)
     = (seq_next ^^ n) (Some 0, r, m5, inh, firq, q, h, w)"
  using assms seq_funpow_None by auto

lemma apu_cycles_Suc_right:
  "apu_cycles n s = Inr t \<Longrightarrow> apu_cycles (Suc n) s = apu_cycle t"
proof (induction n arbitrary: s)
  case 0
  then show ?case by (simp split: sum.splits)
next
  case (Suc n)
  then obtain s1 where c: "apu_cycle s = Inr s1" and r: "apu_cycles n s1 = Inr t"
    by (auto split: sum.splits)
  show ?case using Suc.IH [OF r] c by simp
qed

lemma lockstep_cycles:
  assumes "a_phase s = None \<or> a_phase s = Some 0" "apu_cycles n s = Inr t"
  shows "a_quarters t + 4 * a_wraps s = a_quarters s + 4 * a_wraps t + phase_num t \<and>
     a_halves t + 2 * a_wraps s
       = a_halves s + 2 * a_wraps t + (if 2 \<le> phase_num t then 1 else 0) \<and>
     a_mode5 t = a_mode5 s \<and> a_irqInhibit t = a_irqInhibit s \<and> a_wraps s \<le> a_wraps t \<and>
     (a_frameIRQ t \<longleftrightarrow>
        a_frameIRQ s \<or> (\<not> a_mode5 s \<and> \<not> a_irqInhibit s \<and> a_wraps s < a_wraps t))"
proof -
  have "seq_lockstep (seq_fields s) ((seq_next ^^ n) (seq_fields s))"
    by (rule seq_lockstep_funpow [OF seq_lockstep_start [OF assms(1)]])
  then have "seq_lockstep (seq_fields s) (seq_fields t)"
    using seq_fields_cycles [OF assms(2)] by simp
  then show ?thesis
    by (auto simp: seq_lockstep_def seq_fields_def phase_num_def)
qed

lemma phase_at_nonneg: "0 \<le> phase_at x"
  by (simp add: phase_at_def)

lemma run_cycles:
  assumes "a_phase s = None \<or> a_phase s = Some 0" "0 \<le> a_seqTime s" "a_seqTime s < 1"
    "seq_grid (a_seqTime s)"
    "0 < n" "a_seqTime s + real n < seqPeriod" "apu_cycles n s = Inr t"
  shows "seq_fields t =
       (Some (phase_at (a_seqTime s + real n)), a_seqTime s + real n, a_mode5 s,
        a_irqInhibit s, a_frameIRQ s, a_quarters s + nat (phase_at (a_seqTime s + real n)),
        a_halves s + (if 2 \<le> phase_at (a_seqTime s + real n) then 1 else 0), a_wraps s)"
proof -
  have p0: "phase_at (a_seqTime s) \<le> 0"
    using assms(3) by (simp add: phase_at_def thresholds)
  have mx: "max 0 (phase_at (a_seqTime s + real n)) = phase_at (a_seqTime s + real n)"
    using phase_at_nonneg by (simp add: max_def)
  have "seq_fields t = (seq_next ^^ n) (seq_fields s)"
    by (rule seq_fields_cycles [OF assms(7)])
  also have "\<dots> = (seq_next ^^ n) (Some 0, a_seqTime s, a_mode5 s, a_irqInhibit s,
      a_frameIRQ s, a_quarters s, a_halves s, a_wraps s)"
    unfolding seq_fields_def by (rule seq_funpow_start [OF assms(1) assms(5)])
  also have "\<dots> = (Some (max 0 (phase_at (a_seqTime s + real n))), a_seqTime s + real n,
      a_mode5 s, a_irqInhibit s, a_frameIRQ s,
      a_quarters s + nat (max 0 (phase_at (a_seqTime s + real n)) - 0),
      a_halves s + (if (0::int) \<le> 1 \<and> 2 \<le> max 0 (phase_at (a_seqTime s + real n))
                    then 1 else 0), a_wraps s)"
    by (rule seq_next_run [OF _ p0 assms(4) assms(2) assms(6)]) simp
  finally show ?thesis by (simp add: mx)
qed

lemma period_wrap:
  assumes ph: "a_phase s = None \<or> a_phase s = Some 0"
    and t0: "0 \<le> a_seqTime s" and t1: "a_seqTime s < 1" and g: "seq_grid (a_seqTime s)"
    and ok: "duty_ok s"
  shows "\<exists>t. apu_cycles (nat \<lceil>seqPeriod - a_seqTime s\<rceil>) s = Inr t \<and> duty_ok t \<and>
     seq_fields t = (Some 0, a_seqTime s + real (nat \<lceil>seqPeriod - a_seqTime s\<rceil>) - seqPeriod,
        a_mode5 s, a_irqInhibit s, a_frameIRQ s \<or> (\<not> a_mode5 s \<and> \<not> a_irqInhibit s),
        a_quarters s + 4, a_halves s + 2, a_wraps s + 1)"
proof -
  define r where "r = a_seqTime s"
  define x where "x = seqPeriod - r"
  define N where "N = nat \<lceil>x\<rceil>"
  have xpos: "29828 < x" using t1 by (simp add: x_def r_def seqPeriod_value)
  then have "0 < \<lceil>x\<rceil>" by linarith
  then have rN: "real N = of_int \<lceil>x\<rceil>" by (simp add: N_def)
  have c: "of_int \<lceil>x\<rceil> - 1 < x" "x \<le> of_int \<lceil>x\<rceil>" using ceiling_correct [of x] by auto
  have Nbig: "29828 < real N" using xpos c rN by linarith
  then have Npos: "0 < N - 1" by linarith
  have SN: "Suc (N - 1) = N" using Nbig by linarith
  have rN1: "real (N - 1) = real N - 1" using SN by linarith
  have before: "r + real (N - 1) < seqPeriod" using c rN rN1 x_def by linarith
  have after: "seqPeriod \<le> r + real (N - 1) + 1" using c rN rN1 x_def by linarith
  have p3: "phase_at (r + real (N - 1)) = 3"
    using after by (simp add: phase_at_def thresholds seqPeriod_value)
  have g1: "seq_grid (r + real (N - 1))" unfolding r_def by (rule seq_grid_add [OF g])
  have nn: "0 \<le> r + real (N - 1)" using t0 by (simp add: r_def)
  obtain t1 where c1: "apu_cycles (N - 1) s = Inr t1" and ok1: "duty_ok t1"
    using apu_cycles_ok [OF ok] by blast
  have f1: "seq_fields t1 = (Some 3, r + real (N - 1), a_mode5 s, a_irqInhibit s,
        a_frameIRQ s, a_quarters s + 3, a_halves s + 1, a_wraps s)"
    using run_cycles [OF ph t0 t1 g Npos _ c1] before p3 by (simp add: r_def)
  obtain t where c2: "apu_cycle t1 = Inr t" and ok2: "duty_ok t"
    using apu_cycle_ok [OF ok1] by blast
  have cN: "apu_cycles N s = Inr t"
    using apu_cycles_Suc_right [OF c1] c2 SN by simp
  have "seq_fields t = seq_next (Some 3, r + real (N - 1), a_mode5 s, a_irqInhibit s,
        a_frameIRQ s, a_quarters s + 3, a_halves s + 1, a_wraps s)"
    using seq_fields_cycle [OF c2] f1 by simp
  also have "\<dots> = (Some 0, r + real (N - 1) + 1 - seqPeriod, a_mode5 s, a_irqInhibit s,
        a_frameIRQ s \<or> (\<not> a_mode5 s \<and> \<not> a_irqInhibit s),
        a_quarters s + 3 + 1, a_halves s + 1 + 1, a_wraps s + 1)"
    by (rule seq_next_wrap_step [OF g1 nn before after])
  finally have "seq_fields t = (Some 0, r + real (N - 1) + 1 - seqPeriod, a_mode5 s,
        a_irqInhibit s, a_frameIRQ s \<or> (\<not> a_mode5 s \<and> \<not> a_irqInhibit s),
        a_quarters s + 4, a_halves s + 2, a_wraps s + 1)" by simp
  moreover have "r + real (N - 1) + 1 - seqPeriod = r + real N - seqPeriod"
    using rN1 by linarith
  ultimately have "seq_fields t = (Some 0, r + real N - seqPeriod, a_mode5 s, a_irqInhibit s,
        a_frameIRQ s \<or> (\<not> a_mode5 s \<and> \<not> a_irqInhibit s),
        a_quarters s + 4, a_halves s + 2, a_wraps s + 1)"
    by (simp only:)
  then show ?thesis using cN ok2 unfolding N_def x_def r_def by blast
qed

lemma period_no_wrap:
  assumes ph: "a_phase s = None \<or> a_phase s = Some 0"
    and t0: "0 \<le> a_seqTime s" and t1: "a_seqTime s < 1" and g: "seq_grid (a_seqTime s)"
    and ok: "duty_ok s"
    and n: "n < nat \<lceil>seqPeriod - a_seqTime s\<rceil>"
  shows "\<exists>t. apu_cycles n s = Inr t \<and> a_wraps t = a_wraps s"
proof (cases "n = 0")
  case True
  then show ?thesis by simp
next
  case False
  define x where "x = seqPeriod - a_seqTime s"
  have xpos: "29828 < x" using t1 by (simp add: x_def seqPeriod_value)
  then have "0 < \<lceil>x\<rceil>" by linarith
  then have rN: "real (nat \<lceil>x\<rceil>) = of_int \<lceil>x\<rceil>" by simp
  have c: "of_int \<lceil>x\<rceil> - 1 < x" using ceiling_correct [of x] by auto
  have "real n \<le> real (nat \<lceil>x\<rceil>) - 1" using n unfolding x_def by linarith
  then have lt: "a_seqTime s + real n < seqPeriod" using c rN x_def by linarith
  obtain t where c1: "apu_cycles n s = Inr t" using apu_cycles_ok [OF ok] by blast
  have "a_wraps t = a_wraps s"
    using run_cycles [OF ph t0 t1 g _ lt c1] False by (simp add: seq_fields_def)
  then show ?thesis using c1 by blast
qed

lemma apu_cycles_add:
  "apu_cycles n s = Inr t \<Longrightarrow> apu_cycles (n + m) s = apu_cycles m t"
proof (induction n arbitrary: s)
  case 0
  then show ?case by simp
next
  case (Suc n)
  then obtain s1 where c: "apu_cycle s = Inr s1" and r: "apu_cycles n s1 = Inr t"
    by (auto split: sum.splits)
  show ?case using Suc.IH [OF r] c by simp
qed

lemma remainder:
  assumes "0 \<le> r" "r < 1" "seq_grid r"
  shows "0 \<le> r + real (nat \<lceil>seqPeriod - r\<rceil>) - seqPeriod"
    "r + real (nat \<lceil>seqPeriod - r\<rceil>) - seqPeriod < 1"
    "seq_grid (r + real (nat \<lceil>seqPeriod - r\<rceil>) - seqPeriod)"
proof -
  define x where "x = seqPeriod - r"
  have xpos: "29828 < x" using assms(2) by (simp add: x_def seqPeriod_value)
  then have "0 < \<lceil>x\<rceil>" by linarith
  then have rN: "real (nat \<lceil>x\<rceil>) = of_int \<lceil>x\<rceil>" by simp
  have cc: "of_int \<lceil>x\<rceil> - 1 < x" "x \<le> of_int \<lceil>x\<rceil>" using ceiling_correct [of x] by auto
  show "0 \<le> r + real (nat \<lceil>seqPeriod - r\<rceil>) - seqPeriod"
    "r + real (nat \<lceil>seqPeriod - r\<rceil>) - seqPeriod < 1"
    using cc rN x_def by linarith+
  show "seq_grid (r + real (nat \<lceil>seqPeriod - r\<rceil>) - seqPeriod)"
    by (intro seq_grid_period seq_grid_add assms(3))
qed

subsection \<open>Ticks given to the channels\<close>

lemma view_clock:
  "pulse_view (pulse_clock p) = pulse_view p"
  "triangle_view (triangle_clock t) = triangle_view t"
  "noise_view (noise_clock x) = noise_view x"
  by (simp_all add: pulse_view_def pulse_clock_def triangle_view_def triangle_clock_def
      noise_view_def noise_clock_def Let_def)

lemma view_quarter:
  "pulse_view (pulse_quarter p) = pulse_quarter (pulse_view p)"
  "triangle_view (triangle_quarter t) = triangle_quarter (triangle_view t)"
  "noise_view (noise_quarter x) = noise_quarter (noise_view x)"
  by (simp_all add: pulse_view_def pulse_quarter_def triangle_view_def triangle_quarter_def
      noise_view_def noise_quarter_def Let_def)

lemma view_half:
  "pulse_view (pulse_half p) = pulse_half (pulse_view p)"
  "triangle_view (triangle_half t) = triangle_half (triangle_view t)"
  "noise_view (noise_half x) = noise_half (noise_view x)"
  by (simp_all add: pulse_view_def pulse_half_def sweep_half_def sweep_target_def
      triangle_view_def triangle_half_def noise_view_def noise_half_def Let_def)

lemma quarter_half:
  "pulse_quarter (pulse_half p) = pulse_half (pulse_quarter p)"
  "triangle_quarter (triangle_half t) = triangle_half (triangle_quarter t)"
  "noise_quarter (noise_half x) = noise_half (noise_quarter x)"
  by (simp_all add: pulse_quarter_def pulse_half_def sweep_half_def sweep_target_def
      triangle_quarter_def triangle_half_def noise_quarter_def noise_half_def Let_def)

lemma quarter_half_all: "quarter_all (half_all c) = half_all (quarter_all c)"
  by (cases c) (simp add: quarter_all_def half_all_def quarter_half)

lemma quarter_halves_all: "quarter_all ((half_all ^^ h) c) = (half_all ^^ h) (quarter_all c)"
  by (induction h) (simp_all add: quarter_half_all)

lemma frame_view_clockChannels: "frame_view (apu_clockChannels s) = frame_view s"
  by (simp add: frame_view_def apu_clockChannels_def view_clock)

lemma frame_view_clockQuarter: "frame_view (apu_clockQuarter s) = quarter_all (frame_view s)"
  by (simp add: frame_view_def apu_clockQuarter_def quarter_all_def view_quarter)

lemma frame_view_clockQuarterHalf:
  "frame_view (apu_clockQuarterHalf s) = half_all (quarter_all (frame_view s))"
  by (simp add: frame_view_def apu_clockQuarterHalf_def apu_clockQuarter_def Let_def
      quarter_all_def half_all_def view_quarter view_half)

lemma delivered_refl: "delivered s s"
  by (simp add: delivered_def)

lemma delivered_quarter:
  assumes "delivered s0 s"
  shows "delivered s0 (apu_clockQuarter s)"
proof -
  have "a_quarters s + 1 - a_quarters s0 = Suc (a_quarters s - a_quarters s0)"
    using assms by (simp add: delivered_def Suc_diff_le)
  then show ?thesis
    using assms by (simp add: delivered_def frame_view_clockQuarter quarter_halves_all)
qed

lemma delivered_quarterHalf:
  assumes "delivered s0 s"
  shows "delivered s0 (apu_clockQuarterHalf s)"
proof -
  have "a_quarters s + 1 - a_quarters s0 = Suc (a_quarters s - a_quarters s0)"
    "a_halves s + 1 - a_halves s0 = Suc (a_halves s - a_halves s0)"
    using assms by (simp_all add: delivered_def Suc_diff_le)
  then show ?thesis
    using assms by (simp add: delivered_def frame_view_clockQuarterHalf quarter_halves_all)
qed

lemma delivered_sequencer:
  assumes "delivered s0 s"
  shows "delivered s0 (apu_sequencer s)"
proof (rule sequencer_stages [where P = "delivered s0"])
  show "delivered s0 s" by (rule assms)
qed (simp_all add: delivered_quarter delivered_quarterHalf,
     simp_all add: delivered_def frame_view_def apu_updateIRQLine_def)

lemma delivered_clockChannels: "delivered s0 s \<Longrightarrow> delivered s0 (apu_clockChannels s)"
  by (simp add: delivered_def frame_view_clockChannels) (simp add: apu_clockChannels_def)

lemma delivered_resample:
  "apu_resample s = Inr s' \<Longrightarrow> delivered s0 s \<Longrightarrow> delivered s0 s'"
  by (auto simp: apu_resample_def Let_def delivered_def frame_view_def
      split: if_splits sum.splits)

lemma delivered_cycle: "apu_cycle s = Inr s' \<Longrightarrow> delivered s0 s \<Longrightarrow> delivered s0 s'"
  unfolding apu_cycle_def
  using delivered_resample delivered_sequencer delivered_clockChannels by blast

lemma delivered_cycles: "apu_cycles n s = Inr s' \<Longrightarrow> delivered s0 s \<Longrightarrow> delivered s0 s'"
proof (induction n arbitrary: s)
  case 0
  then show ?case by simp
next
  case (Suc n)
  then obtain s1 where c: "apu_cycle s = Inr s1" and r: "apu_cycles n s1 = Inr s'"
    by (auto split: sum.splits)
  show ?case by (rule Suc.IH [OF r delivered_cycle [OF c Suc.prems(2)]])
qed

lemma frame_view_cycles:
  assumes "apu_cycles n s = Inr t"
  shows "frame_view t = (half_all ^^ (a_halves t - a_halves s))
                          ((quarter_all ^^ (a_quarters t - a_quarters s)) (frame_view s))"
  using delivered_cycles [OF assms delivered_refl] by (simp add: delivered_def)

lemma periods:
  assumes ph: "a_phase s = None \<or> a_phase s = Some 0"
    and t0: "0 \<le> a_seqTime s" and t1: "a_seqTime s < 1" and g: "seq_grid (a_seqTime s)"
    and ok: "duty_ok s"
  shows "\<exists>n t. apu_cycles n s = Inr t \<and> a_wraps t = a_wraps s + k \<and>
      a_quarters t = a_quarters s + 4 * k \<and> a_halves t = a_halves s + 2 * k \<and>
      (a_phase t = None \<or> a_phase t = Some 0) \<and> 0 \<le> a_seqTime t \<and> a_seqTime t < 1 \<and>
      seq_grid (a_seqTime t) \<and> duty_ok t"
proof (induction k)
  case 0
  have "apu_cycles 0 s = Inr s" by simp
  then show ?case using assms by fastforce
next
  case (Suc k)
  then obtain n t where c: "apu_cycles n s = Inr t" and
    f: "a_wraps t = a_wraps s + k" "a_quarters t = a_quarters s + 4 * k"
       "a_halves t = a_halves s + 2 * k" and
    st: "a_phase t = None \<or> a_phase t = Some 0" "0 \<le> a_seqTime t" "a_seqTime t < 1"
       "seq_grid (a_seqTime t)" "duty_ok t"
    by blast
  define N where "N = nat \<lceil>seqPeriod - a_seqTime t\<rceil>"
  note rem = remainder [OF st(2,3,4), folded N_def]
  from period_wrap [OF st] obtain u where
    cu: "apu_cycles N t = Inr u" and oku: "duty_ok u" and
    fu: "seq_fields u = (Some 0, a_seqTime t + real N - seqPeriod,
        a_mode5 t, a_irqInhibit t, a_frameIRQ t \<or> (\<not> a_mode5 t \<and> \<not> a_irqInhibit t),
        a_quarters t + 4, a_halves t + 2, a_wraps t + 1)"
    unfolding N_def by blast
  have "apu_cycles (n + N) s = Inr u" using apu_cycles_add [OF c] cu by simp
  moreover have "a_wraps u = a_wraps s + Suc k" "a_quarters u = a_quarters s + 4 * Suc k"
    "a_halves u = a_halves s + 2 * Suc k" "a_phase u = Some 0"
    "0 \<le> a_seqTime u" "a_seqTime u < 1" "seq_grid (a_seqTime u)"
    using fu f rem by (simp_all add: seq_fields_def)
  ultimately show ?case using oku by blast
qed

text \<open>
  C7. Take a state at the start of a sequence in 4-step mode: phase 0 or not yet set,
  the accumulator in \<open>[0, 1)\<close> and a whole number of steps of \<open>2\<^sup>-\<^sup>3\<^sup>8\<close>, no frame IRQ
  pending while inhibited. A new APU is such a state and every wrap leaves one. Let
  \<open>step\<close> run. The sequence is \<open>q4\<close> cycles long, the double
  \<open>596591 / 20 - 1 / 1374389534720\<close>. After any number of cycles the quarter-frame
  ticks counted are four per completed sequence plus the current phase, the half-frame
  ticks are two per completed sequence plus one from phase 2 on, and the channels have
  had them: every channel is, but for the counters of its own \<open>clock()\<close>, what that
  many calls of \<open>quarter()\<close> and \<open>half()\<close> make of the channel at the start. The
  sequence wraps for the first time at cycle \<open>\<lceil>q4 - seqTime\<rceil>\<close>, not before; at the
  wrap the channels have had four quarter and two half ticks, the frame IRQ flag is
  set exactly if \<open>irqInhibit\<close> is clear, the accumulator has lost \<open>q4\<close> with no
  rounding and keeps its remainder, which is in \<open>[0, 1)\<close> again, and the state is
  again a start of sequence. So it goes on: for every \<open>k\<close> the run reaches the end of
  the \<open>k\<close>-th sequence, with \<open>4 * k\<close> quarter and \<open>2 * k\<close> half ticks given.
\<close>

theorem frame_sequencer_4step:
  assumes ph: "a_phase s = None \<or> a_phase s = Some 0"
    and t0: "0 \<le> a_seqTime s" and t1: "a_seqTime s < 1" and g: "seq_grid (a_seqTime s)"
    and m: "\<not> a_mode5 s" and i: "a_irqInhibit s \<longrightarrow> \<not> a_frameIRQ s" and ok: "duty_ok s"
  shows "seqPeriod = 596591 / 20 - 1 / 1374389534720 \<and>
         (\<forall>n. \<exists>t. apu_cycles n s = Inr t \<and>
            a_quarters t + 4 * a_wraps s = a_quarters s + 4 * a_wraps t + phase_num t \<and>
            a_halves t + 2 * a_wraps s
              = a_halves s + 2 * a_wraps t + (if 2 \<le> phase_num t then 1 else 0) \<and>
            frame_view t = (half_all ^^ (a_halves t - a_halves s))
                             ((quarter_all ^^ (a_quarters t - a_quarters s)) (frame_view s)) \<and>
            (a_frameIRQ t \<longleftrightarrow> \<not> a_irqInhibit s \<and> (a_frameIRQ s \<or> a_wraps s < a_wraps t))) \<and>
         (\<forall>n < nat \<lceil>seqPeriod - a_seqTime s\<rceil>.
            \<exists>t. apu_cycles n s = Inr t \<and> a_wraps t = a_wraps s) \<and>
         (\<exists>t. apu_cycles (nat \<lceil>seqPeriod - a_seqTime s\<rceil>) s = Inr t \<and>
            a_wraps t = a_wraps s + 1 \<and> a_quarters t = a_quarters s + 4 \<and>
            a_halves t = a_halves s + 2 \<and>
            frame_view t = (half_all ^^ 2) ((quarter_all ^^ 4) (frame_view s)) \<and>
            (a_frameIRQ t \<longleftrightarrow> \<not> a_irqInhibit s) \<and>
            a_seqTime t = a_seqTime s + real (nat \<lceil>seqPeriod - a_seqTime s\<rceil>) - seqPeriod \<and>
            a_phase t = Some 0 \<and> 0 \<le> a_seqTime t \<and> a_seqTime t < 1 \<and>
            seq_grid (a_seqTime t) \<and> \<not> a_mode5 t \<and>
            (a_irqInhibit t \<longrightarrow> \<not> a_frameIRQ t) \<and> duty_ok t) \<and>
         (\<forall>k. \<exists>n t. apu_cycles n s = Inr t \<and> a_wraps t = a_wraps s + k \<and>
            a_quarters t = a_quarters s + 4 * k \<and> a_halves t = a_halves s + 2 * k \<and>
            frame_view t = (half_all ^^ (2 * k)) ((quarter_all ^^ (4 * k)) (frame_view s)) \<and>
            (a_phase t = None \<or> a_phase t = Some 0) \<and> 0 \<le> a_seqTime t \<and> a_seqTime t < 1 \<and>
            seq_grid (a_seqTime t))"
proof (intro conjI allI impI)
  show "seqPeriod = 596591 / 20 - 1 / 1374389534720" by (simp add: seqPeriod_value)
next
  fix n
  obtain t where c: "apu_cycles n s = Inr t" using apu_cycles_ok [OF ok] by blast
  show "\<exists>t. apu_cycles n s = Inr t \<and>
            a_quarters t + 4 * a_wraps s = a_quarters s + 4 * a_wraps t + phase_num t \<and>
            a_halves t + 2 * a_wraps s
              = a_halves s + 2 * a_wraps t + (if 2 \<le> phase_num t then 1 else 0) \<and>
            frame_view t = (half_all ^^ (a_halves t - a_halves s))
                             ((quarter_all ^^ (a_quarters t - a_quarters s)) (frame_view s)) \<and>
            (a_frameIRQ t \<longleftrightarrow> \<not> a_irqInhibit s \<and> (a_frameIRQ s \<or> a_wraps s < a_wraps t))"
    using lockstep_cycles [OF ph c] frame_view_cycles [OF c] c m i by blast
next
  fix n
  assume "n < nat \<lceil>seqPeriod - a_seqTime s\<rceil>"
  then show "\<exists>t. apu_cycles n s = Inr t \<and> a_wraps t = a_wraps s"
    by (rule period_no_wrap [OF ph t0 t1 g ok])
next
  define N where "N = nat \<lceil>seqPeriod - a_seqTime s\<rceil>"
  note rem = remainder [OF t0 t1 g, folded N_def]
  from period_wrap [OF ph t0 t1 g ok] obtain t where
    c: "apu_cycles N s = Inr t" and okt: "duty_ok t" and
    f: "seq_fields t = (Some 0, a_seqTime s + real N - seqPeriod,
        a_mode5 s, a_irqInhibit s, a_frameIRQ s \<or> (\<not> a_mode5 s \<and> \<not> a_irqInhibit s),
        a_quarters s + 4, a_halves s + 2, a_wraps s + 1)"
    unfolding N_def by blast
  have fv: "frame_view t = (half_all ^^ 2) ((quarter_all ^^ 4) (frame_view s))"
    using frame_view_cycles [OF c] f by (simp add: seq_fields_def)
  have "\<exists>t. apu_cycles N s = Inr t \<and>
            a_wraps t = a_wraps s + 1 \<and> a_quarters t = a_quarters s + 4 \<and>
            a_halves t = a_halves s + 2 \<and>
            frame_view t = (half_all ^^ 2) ((quarter_all ^^ 4) (frame_view s)) \<and>
            (a_frameIRQ t \<longleftrightarrow> \<not> a_irqInhibit s) \<and>
            a_seqTime t = a_seqTime s + real N - seqPeriod \<and>
            a_phase t = Some 0 \<and> 0 \<le> a_seqTime t \<and> a_seqTime t < 1 \<and>
            seq_grid (a_seqTime t) \<and> \<not> a_mode5 t \<and>
            (a_irqInhibit t \<longrightarrow> \<not> a_frameIRQ t) \<and> duty_ok t"
    using c okt f fv rem m i unfolding seq_fields_def by auto
  then show "\<exists>t. apu_cycles (nat \<lceil>seqPeriod - a_seqTime s\<rceil>) s = Inr t \<and>
            a_wraps t = a_wraps s + 1 \<and> a_quarters t = a_quarters s + 4 \<and>
            a_halves t = a_halves s + 2 \<and>
            frame_view t = (half_all ^^ 2) ((quarter_all ^^ 4) (frame_view s)) \<and>
            (a_frameIRQ t \<longleftrightarrow> \<not> a_irqInhibit s) \<and>
            a_seqTime t = a_seqTime s + real (nat \<lceil>seqPeriod - a_seqTime s\<rceil>) - seqPeriod \<and>
            a_phase t = Some 0 \<and> 0 \<le> a_seqTime t \<and> a_seqTime t < 1 \<and>
            seq_grid (a_seqTime t) \<and> \<not> a_mode5 t \<and>
            (a_irqInhibit t \<longrightarrow> \<not> a_frameIRQ t) \<and> duty_ok t"
    unfolding N_def .
next
  fix k
  from periods [OF ph t0 t1 g ok, of k] obtain n t where
    c: "apu_cycles n s = Inr t" and
    f: "a_wraps t = a_wraps s + k" "a_quarters t = a_quarters s + 4 * k"
       "a_halves t = a_halves s + 2 * k"
       "a_phase t = None \<or> a_phase t = Some 0" "0 \<le> a_seqTime t" "a_seqTime t < 1"
       "seq_grid (a_seqTime t)"
    by blast
  have "frame_view t = (half_all ^^ (2 * k)) ((quarter_all ^^ (4 * k)) (frame_view s))"
    using frame_view_cycles [OF c] f by simp
  then show "\<exists>n t. apu_cycles n s = Inr t \<and> a_wraps t = a_wraps s + k \<and>
            a_quarters t = a_quarters s + 4 * k \<and> a_halves t = a_halves s + 2 * k \<and>
            frame_view t = (half_all ^^ (2 * k)) ((quarter_all ^^ (4 * k)) (frame_view s)) \<and>
            (a_phase t = None \<or> a_phase t = Some 0) \<and> 0 \<le> a_seqTime t \<and> a_seqTime t < 1 \<and>
            seq_grid (a_seqTime t)"
    using c f by blast
qed

lemma duty_ok_init: "duty_ok (apu_init cpuRead sampleRate)"
  by (simp add: duty_ok_def apu_init_def pulse_init_def)

lemma apu_write_4017:
  "a_phase (apu_write 0x4017 v s) = a_phase s"
  "a_seqTime (apu_write 0x4017 v s) = 0"
  "a_mode5 (apu_write 0x4017 v s) = (js_and (js_and v 0xFF) 0x80 \<noteq> 0)"
  "a_irqInhibit (apu_write 0x4017 v s) = (js_and (js_and v 0xFF) 0x40 \<noteq> 0)"
  "a_frameIRQ (apu_write 0x4017 v s) = (a_frameIRQ s \<and> js_and (js_and v 0xFF) 0x40 = 0)"
  "a_quarters (apu_write 0x4017 v s)
     = a_quarters s + (if js_and (js_and v 0xFF) 0x80 \<noteq> 0 then 1 else 0)"
  "a_halves (apu_write 0x4017 v s)
     = a_halves s + (if js_and (js_and v 0xFF) 0x80 \<noteq> 0 then 1 else 0)"
  "a_wraps (apu_write 0x4017 v s) = a_wraps s"
  by (simp_all add: apu_write_def Let_def)

lemma duty_ok_write_4017: "duty_ok (apu_write 0x4017 v s) = duty_ok s"
  by (simp add: apu_write_def Let_def duty_ok_def apu_updateIRQLine_def
      apu_clockQuarterHalf_def apu_clockQuarter_def pulse_quarter_def pulse_half_def
      p_duty_sweep_half)

lemma struck_start:
  "a_phase struck = None" "a_seqTime struck = 0" "\<not> a_mode5 struck" "a_irqInhibit struck"
  "\<not> a_frameIRQ struck" "duty_ok struck"
  "len_value (p_len (a_pulse1 struck)) = 254" "env_start (p_env (a_pulse1 struck))"
  by (simp_all add: struck_def apu_defs channel_defs js_defs table_defs Let_def duty_ok_def
      js_index_def js_or_else_def)

lemma struck_ticks:
  "len_value (p_len (fst ((half_all ^^ 2) ((quarter_all ^^ 4) (frame_view struck))))) = 252"
  "env_decay (p_env (fst ((half_all ^^ 2) ((quarter_all ^^ 4) (frame_view struck))))) = 12"
  by (simp_all add: struck_def apu_defs channel_defs js_defs table_defs Let_def
      js_index_def js_or_else_def frame_view_def pulse_view_def triangle_view_def
      noise_view_def quarter_all_def half_all_def eval_nat_numeral)

lemma view_fields:
  "p_len (fst (frame_view s)) = p_len (a_pulse1 s)"
  "p_env (fst (frame_view s)) = p_env (a_pulse1 s)"
  by (simp_all add: frame_view_def pulse_view_def)

theorem frame_sequencer_4step_witness:
  "(\<exists>t. apu_cycles 29830 (apu_init (\<lambda>a. 0) 48000) = Inr t \<and> a_wraps t = 1 \<and>
        a_quarters t = 4 \<and> a_halves t = 2 \<and> \<not> a_frameIRQ t \<and>
        a_seqTime t = 123695058125 / 274877906944 \<and> a_phase t = Some 0) \<and>
   (\<exists>t. apu_cycles 29830 (apu_write 0x4017 0 (apu_init (\<lambda>a. 0) 48000)) = Inr t \<and>
        a_wraps t = 1 \<and> a_quarters t = 4 \<and> a_halves t = 2 \<and> a_frameIRQ t \<and>
        a_seqTime t = 123695058125 / 274877906944 \<and> a_phase t = Some 0) \<and>
   (\<exists>t. apu_cycles 29829
          ((apu_init (\<lambda>a. 0) 48000)\<lparr>a_seqTime := 151182848819 / 274877906944\<rparr>) = Inr t \<and>
        a_wraps t = 1 \<and> a_quarters t = 4 \<and> a_halves t = 2 \<and> a_seqTime t = 0) \<and>
   (\<exists>t. apu_cycles 29830 struck = Inr t \<and> a_wraps t = 1 \<and>
        len_value (p_len (a_pulse1 struck)) = 254 \<and> len_value (p_len (a_pulse1 t)) = 252 \<and>
        env_decay (p_env (a_pulse1 t)) = 12)"
proof -
  have N: "nat \<lceil>seqPeriod - 0\<rceil> = 29830" by (simp add: seqPeriod_value)
  let ?s = "apu_init (\<lambda>a. 0) 48000"
  have a: "a_phase ?s = None" "a_seqTime ?s = 0" "\<not> a_mode5 ?s" "a_irqInhibit ?s"
    "\<not> a_frameIRQ ?s" "a_wraps ?s = 0" "a_quarters ?s = 0" "a_halves ?s = 0"
    by (simp_all add: apu_init_def)
  let ?w = "apu_write 0x4017 0 ?s"
  have b: "a_phase ?w = None" "a_seqTime ?w = 0" "\<not> a_mode5 ?w" "\<not> a_irqInhibit ?w"
    "\<not> a_frameIRQ ?w" "a_wraps ?w = 0" "a_quarters ?w = 0" "a_halves ?w = 0"
    by (simp_all add: apu_write_4017 a js_and_def toInt32_def)
  let ?v = "?s\<lparr>a_seqTime := 151182848819 / 274877906944\<rparr>"
  have Nv: "nat \<lceil>seqPeriod - 151182848819 / 274877906944\<rceil> = 29829"
    by (simp add: seqPeriod_value)
  have gv: "seq_grid (151182848819 / 274877906944)" by (simp add: seq_grid_def)
  have d: "a_phase ?v = None" "a_seqTime ?v = 151182848819 / 274877906944" "\<not> a_mode5 ?v"
    "a_irqInhibit ?v" "\<not> a_frameIRQ ?v" "a_wraps ?v = 0" "a_quarters ?v = 0"
    "a_halves ?v = 0" "duty_ok ?v"
    by (simp_all add: apu_init_def duty_ok_def pulse_init_def)
  have 1: "\<exists>t. apu_cycles 29830 ?s = Inr t \<and> a_wraps t = 1 \<and>
        a_quarters t = 4 \<and> a_halves t = 2 \<and> \<not> a_frameIRQ t \<and>
        a_seqTime t = 123695058125 / 274877906944 \<and> a_phase t = Some 0"
    using frame_sequencer_4step [of ?s] a N duty_ok_init [of "\<lambda>a. 0" 48000] seq_grid_0
    by (auto simp add: seqPeriod_value)
  have 2: "\<exists>t. apu_cycles 29830 ?w = Inr t \<and> a_wraps t = 1 \<and>
        a_quarters t = 4 \<and> a_halves t = 2 \<and> a_frameIRQ t \<and>
        a_seqTime t = 123695058125 / 274877906944 \<and> a_phase t = Some 0"
    using frame_sequencer_4step [of ?w] b N duty_ok_init [of "\<lambda>a. 0" 48000] seq_grid_0
    by (auto simp add: seqPeriod_value duty_ok_write_4017)
  have 3: "\<exists>t. apu_cycles 29829 ?v = Inr t \<and> a_wraps t = 1 \<and> a_quarters t = 4 \<and>
        a_halves t = 2 \<and> a_seqTime t = 0"
    using frame_sequencer_4step [of ?v] d Nv gv
    by (auto simp add: seqPeriod_value)
  have 4: "\<exists>t. apu_cycles 29830 struck = Inr t \<and> a_wraps t = 1 \<and>
        len_value (p_len (a_pulse1 struck)) = 254 \<and> len_value (p_len (a_pulse1 t)) = 252 \<and>
        env_decay (p_env (a_pulse1 t)) = 12"
  proof -
    from frame_sequencer_4step [of struck] struck_start seq_grid_0 N
    obtain t where t: "apu_cycles 29830 struck = Inr t" "a_wraps t = a_wraps struck + 1"
      "frame_view t = (half_all ^^ 2) ((quarter_all ^^ 4) (frame_view struck))"
      by auto
    have "a_wraps struck = 0"
      by (simp add: struck_def apu_defs Let_def)
    moreover have "len_value (p_len (a_pulse1 t)) = 252" "env_decay (p_env (a_pulse1 t)) = 12"
      using struck_ticks view_fields [of t] t(3) by simp_all
    ultimately show ?thesis using t struck_start by auto
  qed
  show ?thesis using 1 2 3 4 by blast
qed

text \<open>
  The accumulator of an APU never leaves the grid: whatever is written, read and
  stepped from a new APU on, \<open>seqTime\<close> is a whole number of steps of \<open>2\<^sup>-\<^sup>3\<^sup>8\<close> in
  \<open>[0, q4)\<close>, so none of the additions and subtractions of \<open>step\<close> rounds.
\<close>

lemma seq_ok_next_tuple:
  assumes "seq_ok (ph, t, m5, inh, firq, q, h, w)"
  shows "seq_ok (seq_next (ph, t, m5, inh, firq, q, h, w))"
proof -
  have g: "seq_grid t" and t0: "0 \<le> t" and t1: "t < seqPeriod"
    and p: "ph = None \<or> ph = Some 0 \<or> ph = Some 1 \<or> ph = Some 2 \<or> ph = Some 3"
    using assms by (simp_all add: seq_ok_def)
  have e1: "to_double (t + 1) = t + 1" by (rule count_exact [OF g t0 t1])
  have g1: "seq_grid (t + 1)" by (rule seq_grid_Suc [OF g])
  show ?thesis
  proof (cases "t + 1 < seqPeriod")
    case True
    then show ?thesis
      using p t0 g1
      apply (elim disjE)
      apply (simp_all add: seq_defs e1 thresholds seqPeriod_value seq_ok_def)
      done
  next
    case False
    then have ge: "seqPeriod \<le> t + 1" by simp
    have e2: "to_double (t + 1 - seqPeriod) = t + 1 - seqPeriod"
      using ge t1 by (intro restart_exact g1) simp_all
    have g2: "seq_grid (t + 1 - seqPeriod)" by (rule seq_grid_period [OF g1])
    show ?thesis
      using p ge t1 g2 e2
      apply (elim disjE)
      apply (simp_all add: seq_defs e1 thresholds seqPeriod_value seq_ok_def)
      done
  qed
qed

lemma seq_ok_next: "seq_ok x \<Longrightarrow> seq_ok (seq_next x)"
  by (cases x rule: seq_state_cases) (simp only: seq_ok_next_tuple)

lemma seq_ok_cycle: "apu_cycle s = Inr s' \<Longrightarrow> seq_ok (seq_fields s) \<Longrightarrow> seq_ok (seq_fields s')"
  using seq_fields_cycle seq_ok_next by simp

lemma seq_ok_write: "seq_ok (seq_fields s) \<Longrightarrow> seq_ok (seq_fields (apu_write a v s))"
  by (simp add: apu_write_def Let_def seq_fields_def seq_ok_def seq_grid_0 seqPeriod_value)

lemma seq_ok_do:
  assumes "apu_do op s = Inr s'" "seq_ok (seq_fields s)"
  shows "seq_ok (seq_fields s')"
proof (cases op)
  case (Write a v)
  then show ?thesis using assms seq_ok_write by auto
next
  case (Read a)
  then show ?thesis using assms
    by (auto simp add: apu_read_def Let_def seq_fields_def seq_ok_def split: if_splits)
next
  case (SetVolume v)
  then show ?thesis using assms by (auto simp add: apu_setVolume_def seq_fields_def seq_ok_def)
next
  case Cycle
  then show ?thesis using assms seq_ok_cycle by simp
qed

lemma seq_ok_run: "apu_run ops s = Inr s' \<Longrightarrow> seq_ok (seq_fields s) \<Longrightarrow> seq_ok (seq_fields s')"
proof (induction ops arbitrary: s)
  case Nil
  then show ?case by simp
next
  case (Cons a ops)
  then obtain s1 where c: "apu_do a s = Inr s1" and r: "apu_run ops s1 = Inr s'"
    by (auto split: sum.splits)
  show ?case by (rule Cons.IH [OF r seq_ok_do [OF c Cons.prems(2)]])
qed

lemma grid_reachable:
  assumes "apu_run ops (apu_init cpuRead sampleRate) = Inr s"
  shows "seq_grid (a_seqTime s) \<and> 0 \<le> a_seqTime s \<and> a_seqTime s < seqPeriod"
proof -
  have "seq_ok (seq_fields (apu_init cpuRead sampleRate))"
    by (simp add: seq_ok_def seq_fields_def apu_init_def seq_grid_0 seqPeriod_value)
  from seq_ok_run [OF assms this] show ?thesis
    by (simp add: seq_ok_def seq_fields_def)
qed

lemma run_cycles_from:
  assumes "a_phase s = Some p0" "p0 = 0 \<or> p0 = 1 \<or> p0 = 2 \<or> p0 = 3"
    "phase_at (a_seqTime s) \<le> p0" "seq_grid (a_seqTime s)" "0 \<le> a_seqTime s"
    "a_seqTime s + real n < seqPeriod" "apu_cycles n s = Inr t"
  shows "seq_fields t =
       (Some (max p0 (phase_at (a_seqTime s + real n))), a_seqTime s + real n, a_mode5 s,
        a_irqInhibit s, a_frameIRQ s,
        a_quarters s + nat (max p0 (phase_at (a_seqTime s + real n)) - p0),
        a_halves s + (if p0 \<le> 1 \<and> 2 \<le> max p0 (phase_at (a_seqTime s + real n)) then 1 else 0),
        a_wraps s)"
proof -
  have "seq_fields t = (seq_next ^^ n) (seq_fields s)"
    by (rule seq_fields_cycles [OF assms(7)])
  also have "\<dots> = (seq_next ^^ n) (Some p0, a_seqTime s, a_mode5 s, a_irqInhibit s,
      a_frameIRQ s, a_quarters s, a_halves s, a_wraps s)"
    by (simp add: seq_fields_def assms(1))
  also have "\<dots> = (Some (max p0 (phase_at (a_seqTime s + real n))), a_seqTime s + real n,
      a_mode5 s, a_irqInhibit s, a_frameIRQ s,
      a_quarters s + nat (max p0 (phase_at (a_seqTime s + real n)) - p0),
      a_halves s + (if p0 \<le> 1 \<and> 2 \<le> max p0 (phase_at (a_seqTime s + real n))
                    then 1 else 0), a_wraps s)"
    by (rule seq_next_run [OF assms(2) assms(3) assms(4) assms(5) assms(6)])
  finally show ?thesis .
qed

text \<open>
  C3. The claim: a write to \<open>$4017\<close> sets \<open>seqTime\<close> and the phase to 0. The
  write sets \<open>seqTime\<close> to 0 and leaves \<open>_phase\<close> as it was (it does give one
  quarter and one half tick at once when bit 7 selects 5-step mode, and clears the
  frame IRQ flag when bit 6 sets inhibit, as the claim says). After 14915 cycles on
  a new APU the phase is 2; a write of 0 to \<open>$4017\<close> then leaves phase 2 with
  \<open>seqTime\<close> 0, and the next 22372 cycles give no quarter-frame tick, where a
  sequence that starts at phase 0 gives its first tick within 7458 cycles.
\<close>

theorem frame_counter_write_keeps_phase:
  "a_phase (apu_write 0x4017 v s) = a_phase s \<and> a_seqTime (apu_write 0x4017 v s) = 0 \<and>
   a_mode5 (apu_write 0x4017 v s) = (js_and (js_and v 0xFF) 0x80 \<noteq> 0) \<and>
   a_quarters (apu_write 0x4017 v s)
     = a_quarters s + (if js_and (js_and v 0xFF) 0x80 \<noteq> 0 then 1 else 0) \<and>
   a_halves (apu_write 0x4017 v s)
     = a_halves s + (if js_and (js_and v 0xFF) 0x80 \<noteq> 0 then 1 else 0) \<and>
   a_frameIRQ (apu_write 0x4017 v s) = (a_frameIRQ s \<and> js_and (js_and v 0xFF) 0x40 = 0) \<and>
   (\<exists>t. apu_step 14915 (apu_init cpuRead sampleRate) = Inr t \<and>
        a_phase t = Some 2 \<and> a_quarters t = 2 \<and>
        a_phase (apu_write 0x4017 0 t) = Some 2 \<and> a_seqTime (apu_write 0x4017 0 t) = 0 \<and>
        (\<exists>u. apu_step 22372 (apu_write 0x4017 0 t) = Inr u \<and>
             a_phase u = Some 2 \<and> a_quarters u = 2)) \<and>
   (\<exists>t. apu_step 7458 (apu_init cpuRead sampleRate) = Inr t \<and>
        a_phase t = Some 1 \<and> a_quarters t = 1)"
proof -
  let ?s = "apu_init cpuRead sampleRate"
  have a: "a_phase ?s = None" "a_seqTime ?s = 0" "a_quarters ?s = 0"
    by (simp_all add: apu_init_def)
  obtain t where ct: "apu_cycles 14915 ?s = Inr t" and okt: "duty_ok t"
    using apu_cycles_ok [OF duty_ok_init] by blast
  have ft: "seq_fields t = (Some 2, 14915, a_mode5 ?s, a_irqInhibit ?s, a_frameIRQ ?s,
      2, a_halves ?s + 1, a_wraps ?s)"
    using run_cycles [OF _ _ _ _ _ _ ct] a
    by (simp add: thresholds seqPeriod_value phase_at_def seq_grid_0)
  let ?w = "apu_write 0x4017 0 t"
  have w: "a_phase ?w = Some 2" "a_seqTime ?w = 0" "a_quarters ?w = 2"
    using ft by (simp_all add: apu_write_4017 seq_fields_def js_and_def toInt32_def)
  have okw: "duty_ok ?w" using okt by (simp add: duty_ok_write_4017)
  obtain u where cu: "apu_cycles 22372 ?w = Inr u"
    using apu_cycles_ok [OF okw] by blast
  have fu: "seq_fields u = (Some 2, 22372, a_mode5 ?w, a_irqInhibit ?w, a_frameIRQ ?w,
      2, a_halves ?w, a_wraps ?w)"
    using run_cycles_from [OF w(1) _ _ _ _ _ cu] w
    by (simp add: thresholds seqPeriod_value phase_at_def seq_grid_0)
  obtain t1 where ct1: "apu_cycles 7458 ?s = Inr t1"
    using apu_cycles_ok [OF duty_ok_init] by blast
  have ft1: "seq_fields t1 = (Some 1, 7458, a_mode5 ?s, a_irqInhibit ?s, a_frameIRQ ?s,
      1, a_halves ?s, a_wraps ?s)"
    using run_cycles [OF _ _ _ _ _ _ ct1] a
    by (simp add: thresholds seqPeriod_value phase_at_def seq_grid_0)
  show ?thesis
    using ct ft w cu fu ct1 ft1
    by (simp add: apu_step_def apu_write_4017 seq_fields_def)
qed

section \<open>Properties of the delta modulation channel\<close>

lemma refill_idle:
  "\<not> d_sampleBufferEmpty d \<or> d_bytesRemaining d = 0 \<Longrightarrow> dmc_refillBufferIfNeeded d = d"
  by (simp add: dmc_refillBufferIfNeeded_def)

lemma refill_fetch:
  assumes "d_sampleBufferEmpty d" "d_bytesRemaining d \<noteq> 0"
  shows "d_reads (dmc_refillBufferIfNeeded d) = d_reads d @ [js_and (d_currentAddr d) 0xFFFF]"
    and "d_stalled (dmc_refillBufferIfNeeded d) = d_stalled d + 4"
    and "\<not> d_sampleBufferEmpty (dmc_refillBufferIfNeeded d)"
    and "d_sampleBuffer (dmc_refillBufferIfNeeded d)
           = js_and (d_cpuRead d (js_and (d_currentAddr d) 0xFFFF)) 0xFF"
    and "d_bytesRemaining (dmc_refillBufferIfNeeded d) =
           (if d_bytesRemaining d = 1 \<and> d_loop d then d_sampleLen0 d
            else d_bytesRemaining d - 1)"
    and "d_currentAddr (dmc_refillBufferIfNeeded d) =
           (if d_bytesRemaining d = 1 \<and> d_loop d then d_sampleAddr0 d
            else js_and (d_currentAddr d + 1) 0xFFFF)"
    and "d_irq (dmc_refillBufferIfNeeded d) \<longleftrightarrow>
           d_irq d \<or> (d_bytesRemaining d = 1 \<and> \<not> d_loop d \<and> d_irqEnable d)"
  using assms by (auto simp add: dmc_refillBufferIfNeeded_def Let_def)

lemma refill_frame:
  "d_loop (dmc_refillBufferIfNeeded d) = d_loop d"
  "d_irqEnable (dmc_refillBufferIfNeeded d) = d_irqEnable d"
  "d_timer (dmc_refillBufferIfNeeded d) = d_timer d"
  "d_timerCnt (dmc_refillBufferIfNeeded d) = d_timerCnt d"
  "d_bitsRemaining (dmc_refillBufferIfNeeded d) = d_bitsRemaining d"
  "d_sampleLen0 (dmc_refillBufferIfNeeded d) = d_sampleLen0 d"
  "d_sampleAddr0 (dmc_refillBufferIfNeeded d) = d_sampleAddr0 d"
  "d_enabled (dmc_refillBufferIfNeeded d) = d_enabled d"
  by (simp_all add: dmc_refillBufferIfNeeded_def Let_def)

lemma refill_count:
  "\<not> d_loop d \<Longrightarrow>
     int (length (d_reads (dmc_refillBufferIfNeeded d))) + d_bytesRemaining (dmc_refillBufferIfNeeded d)
       = int (length (d_reads d)) + d_bytesRemaining d"
  by (simp add: dmc_refillBufferIfNeeded_def Let_def)

lemma refill_bytes_nonneg:
  "\<not> d_loop d \<Longrightarrow> 0 \<le> d_bytesRemaining d \<Longrightarrow>
     0 \<le> d_bytesRemaining (dmc_refillBufferIfNeeded d) \<and>
     d_bytesRemaining (dmc_refillBufferIfNeeded d) \<le> d_bytesRemaining d"
  by (simp add: dmc_refillBufferIfNeeded_def Let_def)

lemma refill_irq_inv:
  "\<not> d_loop d \<Longrightarrow> d_irqEnable d \<Longrightarrow> (d_irq d \<longleftrightarrow> d_bytesRemaining d = 0) \<Longrightarrow>
     (d_irq (dmc_refillBufferIfNeeded d) \<longleftrightarrow> d_bytesRemaining (dmc_refillBufferIfNeeded d) = 0)"
  by (auto simp add: dmc_refillBufferIfNeeded_def Let_def)

lemma dmc_clock_parts:
  "dmc_clock d =
     (let d1 = dmc_refillBufferIfNeeded d; d2 = dmc_timerPart d1 in
      if d_timerCnt d1 = 0 \<and> d_bitsRemaining d1 = 0 \<and> \<not> d_sampleBufferEmpty d1
      then dmc_refillBufferIfNeeded d2 else d2)"
  by (simp add: dmc_clock_def dmc_timerPart_def Let_def)

lemma timerPart_frame:
  "d_loop (dmc_timerPart d) = d_loop d"
  "d_irqEnable (dmc_timerPart d) = d_irqEnable d"
  "d_irq (dmc_timerPart d) = d_irq d"
  "d_timer (dmc_timerPart d) = d_timer d"
  "d_bytesRemaining (dmc_timerPart d) = d_bytesRemaining d"
  "d_reads (dmc_timerPart d) = d_reads d"
  "d_sampleLen0 (dmc_timerPart d) = d_sampleLen0 d"
  "d_sampleAddr0 (dmc_timerPart d) = d_sampleAddr0 d"
  "d_currentAddr (dmc_timerPart d) = d_currentAddr d"
  "d_enabled (dmc_timerPart d) = d_enabled d"
  by (simp_all add: dmc_timerPart_def Let_def)

lemma timerPart_counters:
  "d_timerCnt (dmc_timerPart d) = (if d_timerCnt d = 0 then d_timer d else d_timerCnt d - 1)"
  "d_bitsRemaining (dmc_timerPart d) =
     (if d_timerCnt d = 0
      then (if d_bitsRemaining d = 0 then (if d_sampleBufferEmpty d then 0 else 8)
            else d_bitsRemaining d - 1)
      else d_bitsRemaining d)"
  "d_sampleBufferEmpty (dmc_timerPart d) \<longleftrightarrow>
     d_sampleBufferEmpty d \<or> (d_timerCnt d = 0 \<and> d_bitsRemaining d = 0)"
  by (auto simp add: dmc_timerPart_def Let_def)

lemma clock_frame:
  "d_loop (dmc_clock d) = d_loop d"
  "d_irqEnable (dmc_clock d) = d_irqEnable d"
  "d_timer (dmc_clock d) = d_timer d"
  "d_sampleLen0 (dmc_clock d) = d_sampleLen0 d"
  "d_sampleAddr0 (dmc_clock d) = d_sampleAddr0 d"
  "d_enabled (dmc_clock d) = d_enabled d"
  by (simp_all add: dmc_clock_parts Let_def refill_frame timerPart_frame)

lemma clock_count:
  assumes "\<not> d_loop d"
  shows "int (length (d_reads (dmc_clock d))) + d_bytesRemaining (dmc_clock d)
       = int (length (d_reads d)) + d_bytesRemaining d"
proof -
  let ?d1 = "dmc_refillBufferIfNeeded d"
  let ?d2 = "dmc_timerPart ?d1"
  have 1: "int (length (d_reads ?d1)) + d_bytesRemaining ?d1
       = int (length (d_reads d)) + d_bytesRemaining d"
    by (rule refill_count [OF assms])
  have 2: "int (length (d_reads ?d2)) + d_bytesRemaining ?d2
       = int (length (d_reads d)) + d_bytesRemaining d"
    using 1 by (simp add: timerPart_frame)
  have l2: "\<not> d_loop ?d2" using assms by (simp add: timerPart_frame refill_frame)
  have 3: "int (length (d_reads (dmc_refillBufferIfNeeded ?d2)))
        + d_bytesRemaining (dmc_refillBufferIfNeeded ?d2)
       = int (length (d_reads d)) + d_bytesRemaining d"
    using refill_count [OF l2] 2 by simp
  show ?thesis using 2 3 by (simp add: dmc_clock_parts Let_def)
qed

lemma clock_bytes:
  assumes "\<not> d_loop d" "0 \<le> d_bytesRemaining d"
  shows "0 \<le> d_bytesRemaining (dmc_clock d) \<and> d_bytesRemaining (dmc_clock d) \<le> d_bytesRemaining d"
proof -
  let ?d1 = "dmc_refillBufferIfNeeded d"
  let ?d2 = "dmc_timerPart ?d1"
  have 1: "0 \<le> d_bytesRemaining ?d1 \<and> d_bytesRemaining ?d1 \<le> d_bytesRemaining d"
    by (rule refill_bytes_nonneg [OF assms])
  then have 2: "0 \<le> d_bytesRemaining ?d2 \<and> d_bytesRemaining ?d2 \<le> d_bytesRemaining d"
    by (simp add: timerPart_frame)
  have l2: "\<not> d_loop ?d2" using assms by (simp add: timerPart_frame refill_frame)
  have 3: "0 \<le> d_bytesRemaining (dmc_refillBufferIfNeeded ?d2) \<and>
      d_bytesRemaining (dmc_refillBufferIfNeeded ?d2) \<le> d_bytesRemaining d"
    using refill_bytes_nonneg [OF l2] 2 by auto
  show ?thesis using 2 3 by (simp add: dmc_clock_parts Let_def)
qed

lemma clock_irq_inv:
  assumes "\<not> d_loop d" "d_irqEnable d" "d_irq d \<longleftrightarrow> d_bytesRemaining d = 0"
  shows "d_irq (dmc_clock d) \<longleftrightarrow> d_bytesRemaining (dmc_clock d) = 0"
proof -
  let ?d1 = "dmc_refillBufferIfNeeded d"
  let ?d2 = "dmc_timerPart ?d1"
  have 1: "d_irq ?d1 \<longleftrightarrow> d_bytesRemaining ?d1 = 0"
    by (rule refill_irq_inv [OF assms])
  then have 2: "d_irq ?d2 \<longleftrightarrow> d_bytesRemaining ?d2 = 0"
    by (simp add: timerPart_frame)
  have l2: "\<not> d_loop ?d2" "d_irqEnable ?d2"
    using assms by (simp_all add: timerPart_frame refill_frame)
  have 3: "d_irq (dmc_refillBufferIfNeeded ?d2)
      \<longleftrightarrow> d_bytesRemaining (dmc_refillBufferIfNeeded ?d2) = 0"
    by (rule refill_irq_inv [OF l2 2])
  show ?thesis using 2 3 by (simp add: dmc_clock_parts Let_def)
qed

lemma clock_wf:
  assumes "dmc_wf d" "\<not> d_loop d"
  shows "dmc_wf (dmc_clock d)"
  using assms clock_bytes [of d]
  by (auto simp add: dmc_wf_def dmc_clock_parts Let_def refill_frame timerPart_frame
      timerPart_counters)

lemma clock_progress:
  assumes wf: "dmc_wf d" and nl: "\<not> d_loop d" and b: "0 < d_bytesRemaining d"
  shows "d_bytesRemaining (dmc_clock d) < d_bytesRemaining d \<or>
         (d_bytesRemaining (dmc_clock d) = d_bytesRemaining d \<and>
          0 \<le> dmc_wait (dmc_clock d) \<and> dmc_wait (dmc_clock d) < dmc_wait d)"
proof (cases "d_sampleBufferEmpty d")
  case True
  let ?d1 = "dmc_refillBufferIfNeeded d"
  have "d_bytesRemaining ?d1 = d_bytesRemaining d - 1"
    using refill_fetch(5) [OF True] b nl by simp
  moreover have "d_bytesRemaining (dmc_clock d) \<le> d_bytesRemaining ?d1"
  proof -
    let ?d2 = "dmc_timerPart ?d1"
    have l2: "\<not> d_loop ?d2" using nl by (simp add: timerPart_frame refill_frame)
    have b1: "0 \<le> d_bytesRemaining ?d1" using refill_bytes_nonneg [OF nl] b by simp
    then have "0 \<le> d_bytesRemaining ?d2" by (simp add: timerPart_frame)
    from refill_bytes_nonneg [OF l2 this]
    show ?thesis by (simp add: dmc_clock_parts Let_def timerPart_frame)
  qed
  ultimately show ?thesis by simp
next
  case False
  then have id: "dmc_refillBufferIfNeeded d = d" by (simp add: refill_idle)
  show ?thesis
  proof (cases "d_timerCnt d = 0 \<and> d_bitsRemaining d = 0")
    case True
    let ?d2 = "dmc_timerPart d"
    have e: "d_sampleBufferEmpty ?d2" using True by (simp add: timerPart_counters)
    have nz: "d_bytesRemaining ?d2 \<noteq> 0" using b by (simp add: timerPart_frame)
    have l2: "\<not> d_loop ?d2" using nl by (simp add: timerPart_frame)
    have "d_bytesRemaining (dmc_refillBufferIfNeeded ?d2) = d_bytesRemaining d - 1"
      using refill_fetch(5) [OF e nz] l2 by (simp add: timerPart_frame)
    then show ?thesis using True False by (simp add: dmc_clock_parts Let_def id)
  next
    case nt: False
    have c: "dmc_clock d = dmc_timerPart d"
      using nt by (auto simp add: dmc_clock_parts Let_def id)
    have ne: "\<not> d_sampleBufferEmpty (dmc_timerPart d)"
      using nt False by (auto simp add: timerPart_counters)
    have w: "dmc_wait (dmc_timerPart d) = dmc_wait d - 1"
      using nt False ne
      by (auto simp add: dmc_wait_def timerPart_counters timerPart_frame algebra_simps)
    have "0 \<le> d_bitsRemaining d * (d_timer d + 1)"
      using wf by (simp add: dmc_wf_def)
    then have "1 \<le> dmc_wait d" using wf False nt
      by (auto simp add: dmc_wait_def dmc_wf_def)
    then show ?thesis using c w by (simp add: timerPart_frame)
  qed
qed

lemma dmc_exhausts:
  assumes "dmc_wf d" "\<not> d_loop d"
  shows "\<exists>n. d_bytesRemaining (dmc_clocks n d) = 0"
proof -
  define R where "R = inv_image (less_than <*lex*> less_than)
      (\<lambda>d. (nat (d_bytesRemaining d), nat (dmc_wait d)))"
  have "wf R" unfolding R_def by (intro wf_inv_image wf_lex_prod wf_less_than)
  then show ?thesis using assms
  proof (induction d rule: wf_induct_rule)
    case (less d)
    show ?case
    proof (cases "d_bytesRemaining d = 0")
      case True
      then have "d_bytesRemaining (dmc_clocks 0 d) = 0" by simp
      then show ?thesis by blast
    next
      case False
      then have b: "0 < d_bytesRemaining d" using less.prems by (simp add: dmc_wf_def)
      have wf': "dmc_wf (dmc_clock d)" by (rule clock_wf [OF less.prems])
      have nl': "\<not> d_loop (dmc_clock d)" using less.prems by (simp add: clock_frame)
      have nn: "0 \<le> d_bytesRemaining (dmc_clock d)" using wf' by (simp add: dmc_wf_def)
      have "(dmc_clock d, d) \<in> R"
        using clock_progress [OF less.prems b] b nn by (auto simp add: R_def)
      from less.IH [OF this wf' nl'] obtain n where
        "d_bytesRemaining (dmc_clocks n (dmc_clock d)) = 0" by blast
      then have "d_bytesRemaining (dmc_clocks (Suc n) d) = 0" by simp
      then show ?thesis by blast
    qed
  qed
qed

lemma clocks_invariants:
  assumes "dmc_wf d" "\<not> d_loop d"
  shows "int (length (d_reads (dmc_clocks n d))) + d_bytesRemaining (dmc_clocks n d)
           = int (length (d_reads d)) + d_bytesRemaining d \<and>
         0 \<le> d_bytesRemaining (dmc_clocks n d) \<and>
         d_bytesRemaining (dmc_clocks n d) \<le> d_bytesRemaining d \<and>
         \<not> d_loop (dmc_clocks n d) \<and> dmc_wf (dmc_clocks n d) \<and>
         d_irqEnable (dmc_clocks n d) = d_irqEnable d"
  using assms
proof (induction n arbitrary: d)
  case 0
  then show ?case by (simp add: dmc_wf_def)
next
  case (Suc n)
  have wf': "dmc_wf (dmc_clock d)" by (rule clock_wf [OF Suc.prems])
  have nl': "\<not> d_loop (dmc_clock d)" using Suc.prems by (simp add: clock_frame)
  have b: "0 \<le> d_bytesRemaining d" using Suc.prems by (simp add: dmc_wf_def)
  show ?case
    using Suc.IH [OF wf' nl'] clock_count [OF Suc.prems(2)] clock_bytes [OF Suc.prems(2) b]
    by (simp add: clock_frame)
qed

lemma clocks_irq:
  assumes "\<not> d_loop d" "d_irqEnable d" "d_irq d \<longleftrightarrow> d_bytesRemaining d = 0"
  shows "d_irq (dmc_clocks n d) \<longleftrightarrow> d_bytesRemaining (dmc_clocks n d) = 0"
  using assms
proof (induction n arbitrary: d)
  case 0
  then show ?case by simp
next
  case (Suc n)
  have "\<not> d_loop (dmc_clock d)" "d_irqEnable (dmc_clock d)"
    using Suc.prems by (simp_all add: clock_frame)
  from Suc.IH [OF this clock_irq_inv [OF Suc.prems]] show ?case by simp
qed

lemma refill_count_loop:
  "\<exists>k. k \<le> 1 \<and>
     int (length (d_reads (dmc_refillBufferIfNeeded d))) + d_bytesRemaining (dmc_refillBufferIfNeeded d)
       = int (length (d_reads d)) + d_bytesRemaining d + int k * d_sampleLen0 d \<and>
     (\<not> d_loop d \<longrightarrow> k = 0)"
proof (cases "d_sampleBufferEmpty d \<and> d_bytesRemaining d = 1 \<and> d_loop d")
  case True
  then have "int (length (d_reads (dmc_refillBufferIfNeeded d)))
        + d_bytesRemaining (dmc_refillBufferIfNeeded d)
       = int (length (d_reads d)) + d_bytesRemaining d + int 1 * d_sampleLen0 d"
    by (simp add: dmc_refillBufferIfNeeded_def Let_def)
  then show ?thesis using True by (intro exI [of _ 1]) simp
next
  case False
  then have "int (length (d_reads (dmc_refillBufferIfNeeded d)))
        + d_bytesRemaining (dmc_refillBufferIfNeeded d)
       = int (length (d_reads d)) + d_bytesRemaining d + int 0 * d_sampleLen0 d"
    by (auto simp add: dmc_refillBufferIfNeeded_def Let_def)
  then show ?thesis by (intro exI [of _ 0]) simp
qed

lemma clock_count_loop:
  "\<exists>k. int (length (d_reads (dmc_clock d))) + d_bytesRemaining (dmc_clock d)
       = int (length (d_reads d)) + d_bytesRemaining d + int k * d_sampleLen0 d \<and>
     (\<not> d_loop d \<longrightarrow> k = 0)"
proof -
  let ?d1 = "dmc_refillBufferIfNeeded d"
  let ?d2 = "dmc_timerPart ?d1"
  let ?d3 = "dmc_refillBufferIfNeeded ?d2"
  obtain k1 where 1: "int (length (d_reads ?d1)) + d_bytesRemaining ?d1
       = int (length (d_reads d)) + d_bytesRemaining d + int k1 * d_sampleLen0 d"
      "\<not> d_loop d \<longrightarrow> k1 = 0"
    using refill_count_loop [of d] by blast
  have 2: "int (length (d_reads ?d2)) + d_bytesRemaining ?d2
       = int (length (d_reads d)) + d_bytesRemaining d + int k1 * d_sampleLen0 d"
    using 1 by (simp add: timerPart_frame)
  obtain k2 where 3: "int (length (d_reads ?d3)) + d_bytesRemaining ?d3
       = int (length (d_reads ?d2)) + d_bytesRemaining ?d2 + int k2 * d_sampleLen0 ?d2"
      "\<not> d_loop ?d2 \<longrightarrow> k2 = 0"
    using refill_count_loop [of ?d2] by blast
  have l: "d_sampleLen0 ?d2 = d_sampleLen0 d" "d_loop ?d2 = d_loop d"
    by (simp_all add: timerPart_frame refill_frame)
  have 4: "int (length (d_reads ?d3)) + d_bytesRemaining ?d3
       = int (length (d_reads d)) + d_bytesRemaining d + int (k1 + k2) * d_sampleLen0 d"
    using 2 3 l by (simp add: algebra_simps)
  have c: "dmc_clock d = ?d2 \<or> dmc_clock d = ?d3"
    by (simp add: dmc_clock_parts Let_def)
  then show ?thesis
  proof
    assume "dmc_clock d = ?d2"
    then show ?thesis using 2 1(2) by (intro exI [of _ k1]) simp
  next
    assume "dmc_clock d = ?d3"
    then show ?thesis using 4 1(2) 3(2) l by (intro exI [of _ "k1 + k2"]) simp
  qed
qed

lemma clocks_count_loop:
  "\<exists>k. int (length (d_reads (dmc_clocks n d))) + d_bytesRemaining (dmc_clocks n d)
       = int (length (d_reads d)) + d_bytesRemaining d + int k * d_sampleLen0 d \<and>
     (\<not> d_loop d \<longrightarrow> k = 0)"
proof (induction n arbitrary: d)
  case 0
  show ?case by (intro exI [of _ 0]) simp
next
  case (Suc n)
  obtain k1 where 1: "int (length (d_reads (dmc_clock d))) + d_bytesRemaining (dmc_clock d)
       = int (length (d_reads d)) + d_bytesRemaining d + int k1 * d_sampleLen0 d"
      "\<not> d_loop d \<longrightarrow> k1 = 0"
    using clock_count_loop [of d] by blast
  obtain k2 where 2: "int (length (d_reads (dmc_clocks n (dmc_clock d))))
        + d_bytesRemaining (dmc_clocks n (dmc_clock d))
       = int (length (d_reads (dmc_clock d))) + d_bytesRemaining (dmc_clock d)
         + int k2 * d_sampleLen0 (dmc_clock d)"
      "\<not> d_loop (dmc_clock d) \<longrightarrow> k2 = 0"
    using Suc.IH [of "dmc_clock d"] by blast
  have "int (length (d_reads (dmc_clocks (Suc n) d))) + d_bytesRemaining (dmc_clocks (Suc n) d)
       = int (length (d_reads d)) + d_bytesRemaining d + int (k1 + k2) * d_sampleLen0 d"
    using 1 2 by (simp add: clock_frame algebra_simps)
  then show ?case using 1(2) 2(2) by (intro exI [of _ "k1 + k2"]) (simp add: clock_frame)
qed


lemma a_dmc_sequencer: "a_dmc (apu_sequencer s) = a_dmc s"
  by (rule sequencer_preserves)
    (simp_all add: apu_clockQuarter_def apu_clockQuarterHalf_def Let_def apu_updateIRQLine_def)

lemma a_dmc_resample: "apu_resample s = Inr s' \<Longrightarrow> a_dmc s' = a_dmc s"
  by (auto simp: apu_resample_def Let_def split: if_splits sum.splits)

lemma a_dmc_cycle: "apu_cycle s = Inr s' \<Longrightarrow> a_dmc s' = dmc_clock (a_dmc s)"
  unfolding apu_cycle_def
  using a_dmc_resample [of "apu_sequencer (apu_clockChannels s)" s']
  by (simp add: a_dmc_sequencer apu_clockChannels_def)

lemma a_dmc_cycles: "apu_cycles n s = Inr t \<Longrightarrow> a_dmc t = dmc_clocks n (a_dmc s)"
proof (induction n arbitrary: s)
  case 0
  then show ?case by simp
next
  case (Suc n)
  then obtain s1 where c: "apu_cycle s = Inr s1" and r: "apu_cycles n s1 = Inr t"
    by (auto split: sum.splits)
  show ?case using Suc.IH [OF r] a_dmc_cycle [OF c] by simp
qed

lemma refill_reads_grow:
  "d_bytesRemaining (dmc_refillBufferIfNeeded d) \<noteq> d_bytesRemaining d \<Longrightarrow>
     length (d_reads d) < length (d_reads (dmc_refillBufferIfNeeded d))"
  by (auto simp add: dmc_refillBufferIfNeeded_def Let_def split: if_splits)

lemma refill_reads_mono:
  "length (d_reads d) \<le> length (d_reads (dmc_refillBufferIfNeeded d))"
  by (auto simp add: dmc_refillBufferIfNeeded_def Let_def split: if_splits)

lemma clock_reads_grow:
  assumes "d_bytesRemaining (dmc_clock d) \<noteq> d_bytesRemaining d"
  shows "length (d_reads d) < length (d_reads (dmc_clock d))"
proof -
  let ?d1 = "dmc_refillBufferIfNeeded d"
  let ?d2 = "dmc_timerPart ?d1"
  let ?d3 = "dmc_refillBufferIfNeeded ?d2"
  have m1: "length (d_reads d) \<le> length (d_reads ?d1)" by (rule refill_reads_mono)
  have m2: "length (d_reads ?d2) \<le> length (d_reads ?d3)" by (rule refill_reads_mono)
  have r2: "d_reads ?d2 = d_reads ?d1" "d_bytesRemaining ?d2 = d_bytesRemaining ?d1"
    by (simp_all add: timerPart_frame)
  have g1: "d_bytesRemaining ?d1 \<noteq> d_bytesRemaining d \<Longrightarrow>
      length (d_reads d) < length (d_reads ?d1)" by (rule refill_reads_grow)
  have g2: "d_bytesRemaining ?d3 \<noteq> d_bytesRemaining ?d2 \<Longrightarrow>
      length (d_reads ?d2) < length (d_reads ?d3)" by (rule refill_reads_grow)
  have c: "dmc_clock d = ?d2 \<or> dmc_clock d = ?d3"
    by (simp add: dmc_clock_parts Let_def)
  show ?thesis using c assms m1 m2 r2 g1 g2 by (elim disjE) force+
qed

lemma write_bytesRemaining:
  assumes "d_bytesRemaining (a_dmc s) \<noteq> 0" "d_bytesRemaining (a_dmc (apu_write a v s)) = 0"
  shows "a = 0x4015 \<and> js_and (js_and v 0xFF) 0x10 = 0"
proof -
  have "a = 0x4015" using assms
    by (auto simp add: apu_write_def Let_def dmc_write0_def dmc_write1_def dmc_write2_def
        dmc_write3_def apu_updateIRQLine_def apu_clockQuarterHalf_def apu_clockQuarter_def
        split: if_splits)
  moreover have "js_and (js_and v 0xFF) 0x10 = 0" using assms \<open>a = 0x4015\<close>
    by (auto simp add: apu_write_def Let_def apu_updateIRQLine_def dmc_setEnabled_def
        split: if_splits)
  ultimately show ?thesis by simp
qed

lemma only_zero:
  assumes "apu_do op s = Inr s'" "d_bytesRemaining (a_dmc s) \<noteq> 0"
    "d_bytesRemaining (a_dmc s') = 0"
  shows "(op = Cycle \<and> length (d_reads (a_dmc s)) < length (d_reads (a_dmc s'))) \<or>
         (\<exists>v. op = Write 0x4015 v \<and> js_and (js_and v 0xFF) 0x10 = 0)"
proof (cases op)
  case (Write a v)
  then show ?thesis using assms write_bytesRemaining [of s a v] by auto
next
  case (Read a)
  then show ?thesis using assms
    by (auto simp add: apu_read_def Let_def apu_updateIRQLine_def split: if_splits)
next
  case (SetVolume v)
  then show ?thesis using assms by (auto simp add: apu_setVolume_def)
next
  case Cycle
  then have "a_dmc s' = dmc_clock (a_dmc s)" using assms(1) a_dmc_cycle by simp
  then show ?thesis using Cycle clock_reads_grow [of "a_dmc s"] assms by simp
qed

lemma playing_dmc:
  "d_bytesRemaining (a_dmc playing) = 17" "d_reads (a_dmc playing) = []"
  "\<not> d_loop (a_dmc playing)" "d_irqEnable (a_dmc playing)" "\<not> d_irq (a_dmc playing)"
  "d_sampleLen0 (a_dmc playing) = 17" "d_enabled (a_dmc playing)"
  "dmc_wf (a_dmc playing)" "d_sampleBufferEmpty (a_dmc playing)"
  by (simp_all add: playing_def dmc_wf_def apu_write_def apu_init_def Let_def
      apu_updateIRQLine_def dmc_init_def dmc_write0_def dmc_write3_def dmc_setEnabled_def
      pulse_setEnabled_def triangle_setEnabled_def noise_setEnabled_def
      js_and_def js_shl_def toInt32_def js_index_def js_or_else_def DMC_RATES_def)

lemma playing_duty_ok: "duty_ok playing"
  by (simp add: playing_def duty_ok_def apu_write_def apu_init_def Let_def
      apu_updateIRQLine_def pulse_setEnabled_def pulse_init_def)

text \<open>
  C5, as stated, fails in one part: \<open>bytesRemaining\<close> does not become 0 only by
  exhausting the programmed length. \<open>setEnabled(false)\<close> sets it to 0 at once: with
  17 bytes left to play and no byte read yet, a write of 0 to \<open>$4015\<close> leaves
  \<open>bytesRemaining\<close> at 0 and still no byte read.
\<close>

theorem dmc_disable_counterexample:
  "d_bytesRemaining (a_dmc playing) = 17 \<and> d_reads (a_dmc playing) = [] \<and>
   d_bytesRemaining (a_dmc (apu_write 0x4015 0 playing)) = 0 \<and>
   d_reads (a_dmc (apu_write 0x4015 0 playing)) = []"
  using playing_dmc
  by (simp add: apu_write_def Let_def apu_updateIRQLine_def dmc_setEnabled_def
      js_and_def toInt32_def)

text \<open>
  C5, amended: while \<open>step\<close> runs, the number of \<open>cpuRead\<close> calls plus
  \<open>bytesRemaining\<close> grows by whole programmed lengths only (one for each reload of a
  looping channel). On a channel that does not loop it stays what it was, and
  \<open>bytesRemaining\<close> does reach 0, so exactly \<open>L\<close> reads are made from
  \<open>bytesRemaining = L\<close> until it is 0; with the IRQ enabled and not yet raised, the
  IRQ flag is set exactly when \<open>bytesRemaining\<close> is 0. The fetch that takes \<open>bytesRemaining\<close> from 1 to 0 either
  reloads the address and the length (loop set; the IRQ flag is left alone) or leaves 0
  and raises the IRQ flag if \<open>irqEnable\<close> is set (loop clear): never both. Over all
  calls, \<open>bytesRemaining\<close> goes from nonzero to 0 only in a cycle that makes a DMA
  read, or by a write to \<open>$4015\<close> with bit 4 clear, which zeroes it with no read and
  clears the IRQ flag. Enabling a stopped channel through \<open>$4015\<close> starts it with
  \<open>bytesRemaining = sampleLen0\<close>. A read of \<open>$4015\<close> clears the IRQ flag.
\<close>

theorem dmc_playback:
  assumes wf: "dmc_wf (a_dmc s)" and ok: "duty_ok s"
  shows "(\<forall>n. \<exists>t k. apu_cycles n s = Inr t \<and>
            int (length (d_reads (a_dmc t))) + d_bytesRemaining (a_dmc t)
              = int (length (d_reads (a_dmc s))) + d_bytesRemaining (a_dmc s)
                + int k * d_sampleLen0 (a_dmc s)) \<and>
         (\<not> d_loop (a_dmc s) \<longrightarrow>
           (\<forall>n. \<exists>t. apu_cycles n s = Inr t \<and>
              int (length (d_reads (a_dmc t))) + d_bytesRemaining (a_dmc t)
                = int (length (d_reads (a_dmc s))) + d_bytesRemaining (a_dmc s) \<and>
              0 \<le> d_bytesRemaining (a_dmc t) \<and>
              (d_irqEnable (a_dmc s) \<and> \<not> d_irq (a_dmc s) \<and> 0 < d_bytesRemaining (a_dmc s)
                 \<longrightarrow> (d_irq (a_dmc t) \<longleftrightarrow> d_bytesRemaining (a_dmc t) = 0))) \<and>
           (\<exists>n t. apu_cycles n s = Inr t \<and> d_bytesRemaining (a_dmc t) = 0)) \<and>
         (d_sampleBufferEmpty d \<and> d_bytesRemaining d = 1 \<longrightarrow>
           d_reads (dmc_refillBufferIfNeeded d) = d_reads d @ [js_and (d_currentAddr d) 0xFFFF] \<and>
           (d_loop d \<longrightarrow>
              d_bytesRemaining (dmc_refillBufferIfNeeded d) = d_sampleLen0 d \<and>
              d_currentAddr (dmc_refillBufferIfNeeded d) = d_sampleAddr0 d \<and>
              d_irq (dmc_refillBufferIfNeeded d) = d_irq d) \<and>
           (\<not> d_loop d \<longrightarrow>
              d_bytesRemaining (dmc_refillBufferIfNeeded d) = 0 \<and>
              d_currentAddr (dmc_refillBufferIfNeeded d) = js_and (d_currentAddr d + 1) 0xFFFF \<and>
              (d_irq (dmc_refillBufferIfNeeded d) \<longleftrightarrow> d_irq d \<or> d_irqEnable d))) \<and>
         (apu_do op s = Inr s' \<and> d_bytesRemaining (a_dmc s) \<noteq> 0 \<and>
            d_bytesRemaining (a_dmc s') = 0 \<longrightarrow>
            (op = Cycle \<and> length (d_reads (a_dmc s)) < length (d_reads (a_dmc s'))) \<or>
            (\<exists>v. op = Write 0x4015 v \<and> js_and (js_and v 0xFF) 0x10 = 0)) \<and>
         (\<not> d_enabled (a_dmc s) \<and> d_bytesRemaining (a_dmc s) = 0 \<longrightarrow>
            d_bytesRemaining (a_dmc (apu_write 0x4015 0x10 s)) = d_sampleLen0 (a_dmc s) \<and>
            d_reads (a_dmc (apu_write 0x4015 0x10 s)) = d_reads (a_dmc s)) \<and>
         d_bytesRemaining (a_dmc (apu_write 0x4015 0 s)) = 0 \<and>
         d_reads (a_dmc (apu_write 0x4015 0 s)) = d_reads (a_dmc s) \<and>
         \<not> d_irq (a_dmc (apu_write 0x4015 0 s)) \<and>
         \<not> d_irq (a_dmc (snd (apu_read 0x4015 s))) \<and>
         d_bytesRemaining (a_dmc (snd (apu_read 0x4015 s))) = d_bytesRemaining (a_dmc s)"
proof (intro conjI impI allI)
  fix n
  obtain t where c: "apu_cycles n s = Inr t" using apu_cycles_ok [OF ok] by blast
  have d: "a_dmc t = dmc_clocks n (a_dmc s)" by (rule a_dmc_cycles [OF c])
  show "\<exists>t k. apu_cycles n s = Inr t \<and>
            int (length (d_reads (a_dmc t))) + d_bytesRemaining (a_dmc t)
              = int (length (d_reads (a_dmc s))) + d_bytesRemaining (a_dmc s)
                + int k * d_sampleLen0 (a_dmc s)"
    using clocks_count_loop [of n "a_dmc s"] c d by auto
next
  fix n
  assume nl: "\<not> d_loop (a_dmc s)"
  obtain t where c: "apu_cycles n s = Inr t" using apu_cycles_ok [OF ok] by blast
  have d: "a_dmc t = dmc_clocks n (a_dmc s)" by (rule a_dmc_cycles [OF c])
  have inv: "int (length (d_reads (a_dmc t))) + d_bytesRemaining (a_dmc t)
                = int (length (d_reads (a_dmc s))) + d_bytesRemaining (a_dmc s) \<and>
              0 \<le> d_bytesRemaining (a_dmc t)"
    using clocks_invariants [OF wf nl, of n] d by simp
  have irq: "d_irqEnable (a_dmc s) \<and> \<not> d_irq (a_dmc s) \<and> 0 < d_bytesRemaining (a_dmc s)
      \<longrightarrow> (d_irq (a_dmc t) \<longleftrightarrow> d_bytesRemaining (a_dmc t) = 0)"
    using clocks_irq [OF nl, of n] d by simp
  show "\<exists>t. apu_cycles n s = Inr t \<and>
              int (length (d_reads (a_dmc t))) + d_bytesRemaining (a_dmc t)
                = int (length (d_reads (a_dmc s))) + d_bytesRemaining (a_dmc s) \<and>
              0 \<le> d_bytesRemaining (a_dmc t) \<and>
              (d_irqEnable (a_dmc s) \<and> \<not> d_irq (a_dmc s) \<and> 0 < d_bytesRemaining (a_dmc s)
                 \<longrightarrow> (d_irq (a_dmc t) \<longleftrightarrow> d_bytesRemaining (a_dmc t) = 0))"
    using c inv irq by blast
next
  assume nl: "\<not> d_loop (a_dmc s)"
  from dmc_exhausts [OF wf nl] obtain n where
    z: "d_bytesRemaining (dmc_clocks n (a_dmc s)) = 0" by blast
  obtain t where c: "apu_cycles n s = Inr t" using apu_cycles_ok [OF ok] by blast
  have "d_bytesRemaining (a_dmc t) = 0" using z a_dmc_cycles [OF c] by simp
  then show "\<exists>n t. apu_cycles n s = Inr t \<and> d_bytesRemaining (a_dmc t) = 0"
    using c by blast
next
  assume "apu_do op s = Inr s' \<and> d_bytesRemaining (a_dmc s) \<noteq> 0 \<and>
            d_bytesRemaining (a_dmc s') = 0"
  then show "(op = Cycle \<and> length (d_reads (a_dmc s)) < length (d_reads (a_dmc s'))) \<or>
            (\<exists>v. op = Write 0x4015 v \<and> js_and (js_and v 0xFF) 0x10 = 0)"
    using only_zero by blast
qed (auto simp add: refill_fetch apu_write_def apu_read_def Let_def apu_updateIRQLine_def
    dmc_setEnabled_def js_and_def toInt32_def)

theorem dmc_playback_witness:
  "d_bytesRemaining (a_dmc playing) = 17 \<and> d_reads (a_dmc playing) = [] \<and>
   (\<exists>n t. apu_cycles n playing = Inr t \<and> d_bytesRemaining (a_dmc t) = 0 \<and>
        length (d_reads (a_dmc t)) = 17 \<and> d_irq (a_dmc t) \<and>
        \<not> d_irq (a_dmc (snd (apu_read 0x4015 t)))) \<and>
   d_bytesRemaining (dmc_refillBufferIfNeeded ((a_dmc playing)\<lparr>d_bytesRemaining := 1\<rparr>)) = 0 \<and>
   d_irq (dmc_refillBufferIfNeeded ((a_dmc playing)\<lparr>d_bytesRemaining := 1\<rparr>)) \<and>
   d_bytesRemaining (dmc_refillBufferIfNeeded
       ((a_dmc playing)\<lparr>d_bytesRemaining := 1, d_loop := True\<rparr>)) = 17 \<and>
   \<not> d_irq (dmc_refillBufferIfNeeded
       ((a_dmc playing)\<lparr>d_bytesRemaining := 1, d_loop := True\<rparr>)) \<and>
   d_bytesRemaining (a_dmc (apu_write 0x4015 0 playing)) = 0 \<and>
   d_bytesRemaining (a_dmc (apu_write 0x4015 0x10 (apu_write 0x4015 0 playing))) = 17"
proof -
  note T = dmc_playback [OF playing_dmc(8) playing_duty_ok]
  from T obtain n t where z: "apu_cycles n playing = Inr t" "d_bytesRemaining (a_dmc t) = 0"
    using playing_dmc(3) by blast
  from T obtain t' where a: "apu_cycles n playing = Inr t'"
      "int (length (d_reads (a_dmc t'))) + d_bytesRemaining (a_dmc t')
         = int (length (d_reads (a_dmc playing))) + d_bytesRemaining (a_dmc playing)"
      "d_irqEnable (a_dmc playing) \<and> \<not> d_irq (a_dmc playing) \<and>
         0 < d_bytesRemaining (a_dmc playing)
         \<longrightarrow> (d_irq (a_dmc t') \<longleftrightarrow> d_bytesRemaining (a_dmc t') = 0)"
    using playing_dmc(3) by blast
  have e: "t' = t" using z a by simp
  have "length (d_reads (a_dmc t)) = 17" "d_irq (a_dmc t)"
    using a z e playing_dmc by simp_all
  moreover have "\<not> d_irq (a_dmc (snd (apu_read 0x4015 t)))"
    using dmc_playback [where s = t] by (simp add: apu_read_def Let_def apu_updateIRQLine_def)
  ultimately have run: "\<exists>n t. apu_cycles n playing = Inr t \<and>
      d_bytesRemaining (a_dmc t) = 0 \<and> length (d_reads (a_dmc t)) = 17 \<and> d_irq (a_dmc t) \<and>
      \<not> d_irq (a_dmc (snd (apu_read 0x4015 t)))"
    using z by blast
  have once: "d_bytesRemaining (dmc_refillBufferIfNeeded
        ((a_dmc playing)\<lparr>d_bytesRemaining := 1\<rparr>)) = 0"
    "d_irq (dmc_refillBufferIfNeeded ((a_dmc playing)\<lparr>d_bytesRemaining := 1\<rparr>))"
    using T [where d = "(a_dmc playing)\<lparr>d_bytesRemaining := 1\<rparr>"] playing_dmc
    by simp_all
  have loop: "d_bytesRemaining (dmc_refillBufferIfNeeded
        ((a_dmc playing)\<lparr>d_bytesRemaining := 1, d_loop := True\<rparr>)) = 17"
    "\<not> d_irq (dmc_refillBufferIfNeeded
        ((a_dmc playing)\<lparr>d_bytesRemaining := 1, d_loop := True\<rparr>))"
    using T [where d = "(a_dmc playing)\<lparr>d_bytesRemaining := 1, d_loop := True\<rparr>"]
      playing_dmc
    by simp_all
  have off: "d_bytesRemaining (a_dmc (apu_write 0x4015 0 playing)) = 0"
    using T by simp
  let ?off = "apu_write 0x4015 0 playing"
  have o: "\<not> d_enabled (a_dmc ?off)" "d_sampleLen0 (a_dmc ?off) = 17" "dmc_wf (a_dmc ?off)"
    "duty_ok ?off"
    using playing_dmc playing_duty_ok
    by (simp_all add: apu_write_def Let_def apu_updateIRQLine_def dmc_setEnabled_def
        dmc_wf_def duty_ok_def pulse_setEnabled_def js_and_def toInt32_def)
  have on: "d_bytesRemaining (a_dmc (apu_write 0x4015 0x10 ?off)) = 17"
    using dmc_playback [OF o(3) o(4)] o off by simp
  show ?thesis using run once loop off on playing_dmc by blast
qed

end
